theory Spec2Isabelle
  imports Complex_Main "HOL-Library.Word" "HOL-Library.Sublist" "HOL-Library.List_Lexorder" "HOL-Library.Char_ord"
begin

unbundle bit_operations_syntax

chapter \<open>Definitions\<close>

section \<open>Go library functions the modelled code calls\<close>

text \<open>
  Go strings are byte sequences; they are modelled as \<open>string\<close> (a list of 8-bit
  characters). \<open>strconv.Itoa\<close> on a non-negative value prints its decimal digits.
\<close>

definition digit_char :: "nat \<Rightarrow> char" where
  "digit_char d = ''0123456789'' ! d"

fun Itoa :: "nat \<Rightarrow> string" where
  "Itoa n = (if n < 10 then [digit_char n] else Itoa (n div 10) @ [digit_char (n mod 10)])"

declare Itoa.simps [simp del]

text \<open>
  \<open>strconv.Atoi\<close>: an optional sign, then one or more decimal digits and nothing
  else; a value outside the 64-bit \<open>int\<close> is a range error.
\<close>

definition is_digit :: "char \<Rightarrow> bool" where
  "is_digit c \<longleftrightarrow> CHR ''0'' \<le> c \<and> c \<le> CHR ''9''"

definition digit_val :: "char \<Rightarrow> nat" where
  "digit_val c = of_char c - 48"

definition dec_val :: "string \<Rightarrow> nat" where
  "dec_val s = foldl (\<lambda>n ch. n * 10 + digit_val ch) 0 s"

datatype num_error = ErrSyntax | ErrRange

definition Atoi :: "string \<Rightarrow> num_error + int" where
  "Atoi s =
     (let signed = (s \<noteq> [] \<and> (hd s = CHR ''-'' \<or> hd s = CHR ''+''));
          body = (if signed then tl s else s)
      in if body = [] \<or> \<not> list_all is_digit body then Inl ErrSyntax
         else let n = (if hd s = CHR ''-'' then - int (dec_val body) else int (dec_val body))
              in if n < - (2 ^ 63) \<or> 2 ^ 63 \<le> n then Inl ErrRange else Inr n)"

definition CR :: char where
  "CR = CHR 0x0D"

definition LF :: char where
  "LF = CHR 0x0A"

text \<open>
  \<open>strings.Split s sep\<close> for a one-byte separator: the pieces of \<open>s\<close> between the
  separators, one piece more than there are separators.
\<close>

fun Split :: "string \<Rightarrow> char \<Rightarrow> string list" where
  "Split [] sep = [[]]"
| "Split (c # cs) sep =
     (if c = sep then [] # Split cs sep
      else (case Split cs sep of [] \<Rightarrow> [[c]] | piece # pieces \<Rightarrow> (c # piece) # pieces))"

text \<open>
  \<open>strings.TrimSpace\<close> removes leading and trailing white space as Unicode defines
  it. On the bytes of a string these are the six ASCII characters tab, LF, VT, FF, CR and
  space, and the UTF-8 encodings of U+0085, U+00A0, U+1680, U+2000 to U+200A, U+2028,
  U+2029, U+202F, U+205F and U+3000. \<open>space_at\<close> is the length of the white-space
  character a byte sequence starts with (0 when it starts with none); \<open>space_before\<close>
  reads the sequence backwards from its end, as \<open>utf8.DecodeLastRuneInString\<close> does.
\<close>

definition ascii_space :: "char \<Rightarrow> bool" where
  "ascii_space c \<longleftrightarrow> c \<in> {CHR 0x09, CHR 0x0A, CHR 0x0B, CHR 0x0C, CHR 0x0D, CHR 0x20}"

definition general_punct_space :: "char \<Rightarrow> bool" where
  "general_punct_space c \<longleftrightarrow>
     (CHR 0x80 \<le> c \<and> c \<le> CHR 0x8A) \<or> c = CHR 0xA8 \<or> c = CHR 0xA9 \<or> c = CHR 0xAF"

fun space_at :: "string \<Rightarrow> nat" where
  "space_at [] = 0"
| "space_at (c # cs) =
     (if ascii_space c then 1
      else if c = CHR 0xC2 \<and> (take 1 cs = [CHR 0x85] \<or> take 1 cs = [CHR 0xA0]) then 2
      else if c = CHR 0xE1 \<and> take 2 cs = [CHR 0x9A, CHR 0x80] then 3
      else if c = CHR 0xE2 \<and> take 1 cs = [CHR 0x80] \<and> length cs \<ge> 2
              \<and> general_punct_space (cs ! 1) then 3
      else if c = CHR 0xE2 \<and> take 2 cs = [CHR 0x81, CHR 0x9F] then 3
      else if c = CHR 0xE3 \<and> take 2 cs = [CHR 0x80, CHR 0x80] then 3
      else 0)"

fun space_before :: "string \<Rightarrow> nat" where
  "space_before [] = 0"
| "space_before (c # cs) =
     (if ascii_space c then 1
      else if (c = CHR 0x85 \<or> c = CHR 0xA0) \<and> take 1 cs = [CHR 0xC2] then 2
      else if c = CHR 0x80 \<and> take 2 cs = [CHR 0x9A, CHR 0xE1] then 3
      else if general_punct_space c \<and> take 2 cs = [CHR 0x80, CHR 0xE2] then 3
      else if c = CHR 0x9F \<and> take 2 cs = [CHR 0x81, CHR 0xE2] then 3
      else if c = CHR 0x80 \<and> take 2 cs = [CHR 0x80, CHR 0xE3] then 3
      else 0)"

lemma space_at_nonempty: "0 < space_at s \<Longrightarrow> length s - space_at s < length s"
  by (cases s) auto

lemma space_before_nonempty: "0 < space_before s \<Longrightarrow> length s - space_before s < length s"
  by (cases s) auto

function TrimLeft :: "string \<Rightarrow> string" where
  "TrimLeft s = (if space_at s = 0 then s else TrimLeft (drop (space_at s) s))"
  by pat_completeness auto
termination
  by (relation "measure length") (auto simp: space_at_nonempty)

declare TrimLeft.simps [simp del]

function TrimRightRev :: "string \<Rightarrow> string" where
  "TrimRightRev s = (if space_before s = 0 then s else TrimRightRev (drop (space_before s) s))"
  by pat_completeness auto
termination
  by (relation "measure length") (auto simp: space_before_nonempty)

declare TrimRightRev.simps [simp del]

definition TrimSpace :: "string \<Rightarrow> string" where
  "TrimSpace s = rev (TrimRightRev (rev (TrimLeft s)))"

section \<open>pkg/ffmpeg: the child-process supervisor\<close>

text \<open>
  How a child process ended, as \<open>os.ProcessState\<close> reports it on Unix, and the text
  \<open>ProcessState.String\<close> prints for it.
\<close>

datatype wait_status = Exited nat | Signaled string

fun ProcessState_String :: "wait_status \<Rightarrow> string" where
  "ProcessState_String (Exited code) = ''exit status '' @ Itoa code"
| "ProcessState_String (Signaled name) = ''signal: '' @ name"

text \<open>
  The errors \<open>process.Start\<close> can hand back: an \<open>*exec.ExitError\<close> wrapping the
  process state, or any other error of the \<open>os/exec\<close> package, known by its message.
\<close>

datatype exec_error = ExitError wait_status | ExecError string

fun Error :: "exec_error \<Rightarrow> string" where
  "Error (ExitError st) = ProcessState_String st"
| "Error (ExecError msg) = msg"

text \<open>
  \<open>cmd.Wait\<close>: nil when the command exits with status zero and the copying of its
  output had no problem; an \<open>*ExitError\<close> when it does not complete successfully;
  the copying error otherwise.
\<close>

definition cmd_Wait :: "wait_status \<Rightarrow> exec_error option \<Rightarrow> exec_error option" where
  "cmd_Wait st copy_err = (if st = Exited 0 then copy_err else Some (ExitError st))"

text \<open>
  The fields of \<open>process\<close> that \<open>Start\<close> reads, and what the operating system
  answers to each call \<open>Start\<close> makes on \<open>p.cmd\<close>. The goroutine that calls
  \<open>Stop\<close> on cancellation only signals the child; what \<open>Start\<close> returns is decided
  by the value of \<open>cmd.Wait\<close>.
\<close>

record process =
  stdoutLogger :: bool
  stderrLogger :: bool

record cmd_calls =
  StdoutPipe :: "exec_error option"
  StderrPipe :: "exec_error option"
  cmd_Start :: "exec_error option"
  Wait :: "exec_error option"

definition attachLogger :: "exec_error option \<Rightarrow> exec_error option" where
  "attachLogger stdPipe = stdPipe"

definition Start :: "process \<Rightarrow> cmd_calls \<Rightarrow> exec_error option" where
  "Start p c =
     (if stdoutLogger p \<and> attachLogger (StdoutPipe c) \<noteq> None then attachLogger (StdoutPipe c)
      else if stderrLogger p \<and> attachLogger (StderrPipe c) \<noteq> None then attachLogger (StderrPipe c)
      else if cmd_Start c \<noteq> None then cmd_Start c
      else (case Wait c of
              None \<Rightarrow> None
            | Some err \<Rightarrow> if Error err = ''exit status 255'' then None else Some err))"

text \<open>A run in which the child was started and ended with the given state.\<close>

definition child_ran :: "cmd_calls \<Rightarrow> wait_status \<Rightarrow> exec_error option \<Rightarrow> bool" where
  "child_ran c st copy_err \<longleftrightarrow>
     StdoutPipe c = None \<and> StderrPipe c = None \<and> cmd_Start c = None \<and>
     Wait c = cmd_Wait st copy_err"

section \<open>pkg/ffmpeg: segment durations of the HLS playlist\<close>

text \<open>
  \<open>time.Duration\<close> is a signed 64-bit count of nanoseconds and Go's \<open>int\<close> is 64 bits
  wide; both are words, whose arithmetic wraps around as Go's does.
\<close>

type_synonym Duration = "64 word"

definition Millisecond :: Duration where
  "Millisecond = 1000000"

definition Second :: Duration where
  "Second = 1000 * Millisecond"

text \<open>
  What a function of this package that returns \<open>(time.Duration, error)\<close> does: it
  returns the pair, or it panics.
\<close>

datatype ffmpeg_error =
    ErrKeyFrameTimeout
  | ErrInvalidFile string
  | ErrParseDuration num_error
  | ErrReadFile
  | ErrWatcher string

datatype go_return = Ret Duration "ffmpeg_error option" | PanicIndexOutOfRange

fun parseDurations_loop :: "string list \<Rightarrow> string list \<Rightarrow> string list" where
  "parseDurations_loop [] durations = durations"
| "parseDurations_loop (line # lines) durations =
     (if length line = 17 \<and> take 8 line = ''#EXTINF:''
      then parseDurations_loop lines (durations @ [take 5 (drop 8 line)])
      else parseDurations_loop lines durations)"

definition parseDurations :: "string \<Rightarrow> string list" where
  "parseDurations m3u8 = parseDurations_loop (Split (TrimSpace m3u8) LF) []"

definition ReplaceAll_dot :: "string \<Rightarrow> string" where
  "ReplaceAll_dot s = filter (\<lambda>c. c \<noteq> CHR ''.'') s"

text \<open>
  The summing loop \<open>for i := nSegments; i != 0; i--\<close>, for a counter that starts at or
  above zero.
\<close>

fun sum_loop :: "string list \<Rightarrow> nat \<Rightarrow> 64 word \<Rightarrow> go_return" where
  "sum_loop durations 0 totalDuration = Ret (totalDuration * Millisecond) None"
| "sum_loop durations (Suc i) totalDuration =
     (if length durations < Suc i then PanicIndexOutOfRange
      else (case Atoi (ReplaceAll_dot (durations ! (length durations - Suc i))) of
              Inl err \<Rightarrow> Ret 0 (Some (ErrParseDuration err))
            | Inr durationInt \<Rightarrow> sum_loop durations i (totalDuration + word_of_int durationInt)))"

text \<open>
  The file system is a map from paths to contents; \<open>ioutil.ReadFile\<close> fails on a path
  it does not hold. A counter that starts below zero moves away from zero, and its first
  index \<open>len(durations) - i\<close> is past the end of the slice.
\<close>

definition getSegmentDuration :: "(string \<rightharpoonup> string) \<Rightarrow> string \<Rightarrow> int \<Rightarrow> go_return" where
  "getSegmentDuration fs hlsPath nSegments =
     (case fs hlsPath of
        None \<Rightarrow> Ret 0 (Some ErrReadFile)
      | Some m3u8 \<Rightarrow>
          let durations = parseDurations m3u8 in
          if int (length durations) < nSegments then Ret 0 (Some (ErrInvalidFile m3u8))
          else if nSegments < 0 then PanicIndexOutOfRange
          else sum_loop durations (nat nSegments) 0)"

text \<open>
  \<open>WaitForKeyframe\<close> waits in one \<open>select\<close> on four channels. The environment says
  whether the watcher could be set up and, counted in nanoseconds from the moment the
  \<open>select\<close> starts to wait, when the watcher reports an event, when it reports an
  error, and when the context is cancelled (\<open>None\<close>: never). The \<open>select\<close> proceeds at
  the first instant a case is ready and chooses among the cases ready then; every case
  returns, so the loop around it runs once. \<open>WaitForKeyframe\<close> lists the values a run may
  return, one per case the \<open>select\<close> may choose.
\<close>

record watch_env =
  NewWatcher :: "string option"
  watcher_Add :: "string option"
  Events_at :: "nat option"
  Errors_at :: "(nat \<times> string) option"
  Done_at :: "nat option"

definition earlier :: "nat option \<Rightarrow> nat \<Rightarrow> nat" where
  "earlier t m = (case t of None \<Rightarrow> m | Some n \<Rightarrow> min n m)"

definition select_time :: "watch_env \<Rightarrow> nat" where
  "select_time e =
     earlier (Events_at e) (earlier (map_option fst (Errors_at e))
       (earlier (Done_at e) (unat (30 * Second))))"

definition WaitForKeyframe ::
  "watch_env \<Rightarrow> (string \<rightharpoonup> string) \<Rightarrow> string \<Rightarrow> int \<Rightarrow> go_return list" where
  "WaitForKeyframe e fs hlsPath nSegments =
     (case NewWatcher e of
        Some err \<Rightarrow> [Ret 0 (Some (ErrWatcher err))]
      | None \<Rightarrow>
     (case watcher_Add e of
        Some err \<Rightarrow> [Ret 0 (Some (ErrWatcher err))]
      | None \<Rightarrow>
          (if Events_at e = Some (select_time e)
           then [getSegmentDuration fs hlsPath nSegments] else []) @
          (case Errors_at e of
             Some (t, err) \<Rightarrow> if t = select_time e then [Ret 0 (Some (ErrWatcher err))] else []
           | None \<Rightarrow> []) @
          (if select_time e = unat (30 * Second) then [Ret 0 (Some ErrKeyFrameTimeout)] else []) @
          (if Done_at e = Some (select_time e) then [Ret 0 None] else [])))"

text \<open>
  The entries of a playlist, for stating what \<open>getSegmentDuration\<close> computes: the lines
  that start with \<open>#EXTINF:\<close>. An entry is well formed when it gives the seconds as
  decimal digits, a point, and six more digits, and ends with a comma; its duration in
  whole milliseconds is read off the digits.
\<close>

definition playlist_lines :: "string \<Rightarrow> string list" where
  "playlist_lines m3u8 = Split (TrimSpace m3u8) LF"

definition extinf_entries :: "string \<Rightarrow> string list" where
  "extinf_entries m3u8 = filter (\<lambda>line. take 8 line = ''#EXTINF:'') (playlist_lines m3u8)"

definition extinf_seconds :: "string \<Rightarrow> string" where
  "extinf_seconds line = takeWhile (\<lambda>c. c \<noteq> CHR ''.'') (drop 8 line)"

definition extinf_fraction :: "string \<Rightarrow> string" where
  "extinf_fraction line = take 6 (drop (9 + length (extinf_seconds line)) line)"

definition extinf_wellformed :: "string \<Rightarrow> bool" where
  "extinf_wellformed line \<longleftrightarrow>
     extinf_seconds line \<noteq> [] \<and> list_all is_digit (extinf_seconds line) \<and>
     length (extinf_fraction line) = 6 \<and> list_all is_digit (extinf_fraction line) \<and>
     line = ''#EXTINF:'' @ extinf_seconds line @ ''.'' @ extinf_fraction line @ '',''"

definition extinf_millis :: "string \<Rightarrow> int" where
  "extinf_millis line =
     int (dec_val (extinf_seconds line)) * 1000 + int (dec_val (take 3 (extinf_fraction line)))"

definition last_entries :: "nat \<Rightarrow> string list \<Rightarrow> string list" where
  "last_entries n entries = drop (length entries - n) entries"

text \<open>An entry whose seconds are a single digit, so that the line has 17 bytes.\<close>

definition one_digit_entry :: "string \<Rightarrow> bool" where
  "one_digit_entry line \<longleftrightarrow> extinf_wellformed line \<and> length (extinf_seconds line) = 1"

section \<open>pkg/ffmpeg: polygon masks\<close>

text \<open>
  Go's \<open>int\<close> has 64 bits: \<open>int64\<close> wraps a mathematical integer into its range, as
  every arithmetic operation of Go does with its result, and \<open>quo\<close> is Go's integer
  division, which truncates towards zero.
\<close>

definition int64 :: "int \<Rightarrow> int" where
  "int64 n = (n + 2 ^ 63) mod 2 ^ 64 - 2 ^ 63"

definition quo :: "int \<Rightarrow> int \<Rightarrow> int" where
  "quo a b = int64 (sgn a * sgn b * (\<bar>a\<bar> div \<bar>b\<bar>))"

type_synonym Point = "int \<times> int"

type_synonym Polygon = "Point list"

text \<open>
  The loop of \<open>vertexInsidePoly\<close> runs \<open>i\<close> over the indices of the polygon and carries
  \<open>j\<close>, the index before \<open>i\<close> (the last index at the start), and \<open>inside\<close>. The
  division is reached only when \<open>yi\<close> and \<open>yj\<close> differ.
\<close>

definition vertexInsidePoly_step ::
  "int \<Rightarrow> int \<Rightarrow> Polygon \<Rightarrow> nat \<Rightarrow> nat \<times> bool \<Rightarrow> nat \<times> bool" where
  "vertexInsidePoly_step x y poly i =
     (\<lambda>(j, inside).
        let xi = fst (poly ! i); yi = snd (poly ! i);
            xj = fst (poly ! j); yj = snd (poly ! j)
        in (i, if ((yi > y) \<noteq> (yj > y)) \<and>
                  x < int64 (quo (int64 (int64 (xj - xi) * int64 (y - yi))) (int64 (yj - yi)) + xi)
               then \<not> inside else inside))"

definition vertexInsidePoly :: "int \<Rightarrow> int \<Rightarrow> Polygon \<Rightarrow> bool" where
  "vertexInsidePoly x y poly =
     snd (fold (vertexInsidePoly_step x y poly) [0..<length poly] (length poly - 1, False))"

text \<open>
  The standard ray-cast test, for stating what \<open>CreateMask\<close> is to fill: a point is
  inside when the horizontal ray from it towards larger \<open>x\<close> crosses an odd number of
  edges. An edge crosses the ray when its ends lie on different sides of the line through
  the point and it meets that line to the right of the point; where it meets the line is
  a rational number, computed exactly. The edge that ends in vertex \<open>i\<close> starts in the
  vertex before it, cyclically.
\<close>

definition edge_crosses :: "int \<Rightarrow> int \<Rightarrow> Point \<Rightarrow> Point \<Rightarrow> bool" where
  "edge_crosses x y p q \<longleftrightarrow>
     ((snd p > y) \<noteq> (snd q > y)) \<and>
     (rat_of_int x <
        rat_of_int (fst q - fst p) * rat_of_int (y - snd p) / rat_of_int (snd q - snd p)
          + rat_of_int (fst p))"

definition ray_cast_inside :: "int \<Rightarrow> int \<Rightarrow> Polygon \<Rightarrow> bool" where
  "ray_cast_inside x y poly \<longleftrightarrow>
     odd (length (filter
       (\<lambda>i. edge_crosses x y (poly ! i) (poly ! ((i + length poly - 1) mod length poly)))
       [0..<length poly]))"

text \<open>
  An \<open>image.Alpha\<close>: its bounds \<open>(Min.X, Min.Y, Max.X, Max.Y)\<close> and the alpha value
  stored for each point. \<open>image.Rect\<close> orders the corners it is given. \<open>Set\<close> leaves
  the image alone for a point outside the bounds, and \<open>At\<close> is zero there.
\<close>

record Alpha =
  Rect :: "int \<times> int \<times> int \<times> int"
  Pix :: "Point \<Rightarrow> 8 word"

definition image_Rect :: "int \<Rightarrow> int \<Rightarrow> int \<Rightarrow> int \<Rightarrow> int \<times> int \<times> int \<times> int" where
  "image_Rect x0 y0 x1 y1 = (min x0 x1, min y0 y1, max x0 x1, max y0 y1)"

definition Dx :: "int \<times> int \<times> int \<times> int \<Rightarrow> int" where
  "Dx r = (case r of (minx, miny, maxx, maxy) \<Rightarrow> int64 (maxx - minx))"

definition Dy :: "int \<times> int \<times> int \<times> int \<Rightarrow> int" where
  "Dy r = (case r of (minx, miny, maxx, maxy) \<Rightarrow> int64 (maxy - miny))"

definition Point_In :: "Point \<Rightarrow> int \<times> int \<times> int \<times> int \<Rightarrow> bool" where
  "Point_In p r =
     (case r of (minx, miny, maxx, maxy) \<Rightarrow>
        minx \<le> fst p \<and> fst p < maxx \<and> miny \<le> snd p \<and> snd p < maxy)"

text \<open>
  \<open>image.NewAlpha\<close> panics when the width or the height of the rectangle is negative
  or their product does not fit an \<open>int\<close>; otherwise it makes a slice of one byte for
  each pixel, every byte zero, which the runtime can refuse. \<open>alloc n\<close> says whether
  the runtime can make a slice of \<open>n\<close> bytes.
\<close>

datatype image_result = Image Alpha | PanicHugeDimensions | OutOfMemory

definition NewAlpha :: "(nat \<Rightarrow> bool) \<Rightarrow> int \<times> int \<times> int \<times> int \<Rightarrow> image_result" where
  "NewAlpha alloc r =
     (if Dx r < 0 \<or> Dy r < 0 \<or> 2 ^ 63 \<le> Dx r * Dy r then PanicHugeDimensions
      else if alloc (nat (Dx r * Dy r)) then Image \<lparr>Rect = r, Pix = (\<lambda>p. 0)\<rparr>
      else OutOfMemory)"

definition Alpha_Set :: "Alpha \<Rightarrow> int \<Rightarrow> int \<Rightarrow> 8 word \<Rightarrow> Alpha" where
  "Alpha_Set img x y a =
     (if Point_In (x, y) (Rect img) then img\<lparr>Pix := (Pix img)((x, y) := a)\<rparr> else img)"

definition Alpha_At :: "Alpha \<Rightarrow> int \<Rightarrow> int \<Rightarrow> 8 word" where
  "Alpha_At img x y = (if Point_In (x, y) (Rect img) then Pix img (x, y) else 0)"

text \<open>
  \<open>CreateMask\<close>: the outer loop variable, which the source calls \<open>y\<close>, runs over the
  width, the inner one, called \<open>x\<close>, over the height; both the test and the pixel take
  the outer variable first. \<open>CreateMask_pixel\<close> is the body of the inner loop.
\<close>

definition CreateMask_pixel :: "Polygon \<Rightarrow> int \<Rightarrow> int \<Rightarrow> Alpha \<Rightarrow> Alpha" where
  "CreateMask_pixel poly y x img =
     (if vertexInsidePoly y x poly then Alpha_Set img y x 255 else Alpha_Set img y x 0)"

definition CreateMask :: "(nat \<Rightarrow> bool) \<Rightarrow> int \<Rightarrow> int \<Rightarrow> Polygon \<Rightarrow> image_result" where
  "CreateMask alloc w h poly =
     (case NewAlpha alloc (image_Rect 0 0 w h) of
        Image img \<Rightarrow>
          Image (fold (\<lambda>y img. fold (\<lambda>x img. CreateMask_pixel poly y x img) [0..h - 1] img)
                   [0..w - 1] img)
      | PanicHugeDimensions \<Rightarrow> PanicHugeDimensions
      | OutOfMemory \<Rightarrow> OutOfMemory)"

text \<open>The alpha of a pixel of the image \<open>CreateMask\<close> returns, when it returns one.\<close>

definition mask_At :: "image_result \<Rightarrow> int \<Rightarrow> int \<Rightarrow> 8 word option" where
  "mask_At res x y = (case res of Image img \<Rightarrow> Some (Alpha_At img x y) | _ \<Rightarrow> None)"
section \<open>pkg/log: the log bus\<close>

text \<open>
  The dispatcher \<open>Logger.Start\<close> is one loop around a \<open>select\<close>. A run of it is the
  sequence of cases the \<open>select\<close> takes: the context is done, a channel arrives on
  \<open>l.sub\<close>, a channel arrives on \<open>l.unsub\<close>, a record arrives on \<open>l.feed\<close>. The state
  is the set \<open>subs\<close>, the channels closed so far, and, for every channel, the records
  sent on it. Closing a closed channel panics, and so does sending on one.
\<close>

datatype ('ch, 'log) select_case = CtxDone | Sub 'ch | Unsub 'ch | Feed 'log

datatype loop_status = Running | Returned | Panicked

record ('ch, 'log) dispatcher =
  subs :: "'ch set"
  closed :: "'ch set"
  received :: "'ch \<Rightarrow> 'log list"
  status :: loop_status

definition step :: "('ch, 'log) dispatcher \<Rightarrow> ('ch, 'log) select_case \<Rightarrow> ('ch, 'log) dispatcher" where
  "step s c =
     (case c of
        CtxDone \<Rightarrow> s\<lparr>status := Returned\<rparr>
      | Sub ch \<Rightarrow> s\<lparr>subs := insert ch (subs s)\<rparr>
      | Unsub ch \<Rightarrow>
          if ch \<in> closed s then s\<lparr>status := Panicked\<rparr>
          else s\<lparr>subs := subs s - {ch}, closed := insert ch (closed s)\<rparr>
      | Feed msg \<Rightarrow>
          if subs s \<inter> closed s \<noteq> {} then s\<lparr>status := Panicked\<rparr>
          else s\<lparr>received := (\<lambda>ch. if ch \<in> subs s then received s ch @ [msg] else received s ch)\<rparr>)"

fun dispatch :: "('ch, 'log) dispatcher \<Rightarrow> ('ch, 'log) select_case list \<Rightarrow> ('ch, 'log) dispatcher" where
  "dispatch s [] = s"
| "dispatch s (c # cs) = (if status s = Running then dispatch (step s c) cs else s)"

definition Logger_Start :: "('ch, 'log) select_case list \<Rightarrow> ('ch, 'log) dispatcher" where
  "Logger_Start cs = dispatch \<lparr>subs = {}, closed = {}, received = (\<lambda>ch. []), status = Running\<rparr> cs"

text \<open>The records fed to the bus in a run, in order.\<close>

fun fed :: "('ch, 'log) select_case list \<Rightarrow> 'log list" where
  "fed [] = []"
| "fed (Feed msg # cs) = msg # fed cs"
| "fed (c # cs) = fed cs"

section \<open>pkg/aac: ADTS packets\<close>

type_synonym byte = "8 word"

record ADTSPacket =
  Type :: int
  SampleRate :: int
  ChannelCount :: int
  AU :: "byte list"

text \<open>
  The decoder and the encoder read two tables and one constant that the package declares
  in another file: the sample rates, the channel counts, and the audio type of AAC-LC.
  They are parameters here.
\<close>

record aac_tables =
  sampleRates :: "int list"
  channelCounts :: "int list"
  MPEG4AudioTypeAACLC :: int

datatype adts_error =
    ErrADTSdecodeLengthInvalid
  | ErrADTSdecodeSyncwordInvalid
  | ErrADTSdecodeCRCunsupported
  | ErrADTSdecodeTypeUnsupported int
  | ErrADTSdecodeSampleRateInvalid byte
  | ErrADTSdecodeChannelInvalid byte
  | ErrADTSdecodeMultipleFramesUnsupported
  | ErrADTSdecodeFrameLengthInvalid
  | ErrADTSencodeSampleRateInvalid int
  | ErrADTSencodeChannelCountInvalid int
  | PanicIndex
  | PanicSliceBounds

text \<open>
  One turn of the decoder's loop on a non-empty input, up to the slicing: the checks of
  the header in the order of the source, giving the packet without its payload and
  \<open>frameLen\<close>. Reading a table past its end panics.
\<close>

definition decode_header :: "aac_tables \<Rightarrow> byte list \<Rightarrow> adts_error + (ADTSPacket \<times> int)" where
  "decode_header tb byts =
     (if length byts < 8 then Inl ErrADTSdecodeLengthInvalid
      else
        let syncWord = push_bit 4 (ucast (byts ! 0) :: 16 word) OR drop_bit 4 (ucast (byts ! 1) :: 16 word) in
        if syncWord \<noteq> 0xfff then Inl ErrADTSdecodeSyncwordInvalid
        else
        let protectionAbsent = (byts ! 1) AND 0x01 in
        if protectionAbsent \<noteq> 1 then Inl ErrADTSdecodeCRCunsupported
        else
        let pktType = uint (drop_bit 6 (byts ! 2) + 1) in
        if pktType \<noteq> MPEG4AudioTypeAACLC tb then Inl (ErrADTSdecodeTypeUnsupported pktType)
        else
        let sampleRateIndex = drop_bit 2 (byts ! 2) AND 0x0F in
        if \<not> sampleRateIndex \<le> 12 then Inl (ErrADTSdecodeSampleRateInvalid sampleRateIndex)
        else if \<not> unat sampleRateIndex < length (sampleRates tb) then Inl PanicIndex
        else
        let channelConfig = push_bit 2 ((byts ! 2) AND 0x01) OR (drop_bit 6 (byts ! 3) AND 0x03) in
        if \<not> (channelConfig \<ge> 1 \<and> channelConfig \<le> 7) then Inl (ErrADTSdecodeChannelInvalid channelConfig)
        else if \<not> unat (channelConfig - 1) < length (channelCounts tb) then Inl PanicIndex
        else
        let frameLen = uint (push_bit 11 ((ucast (byts ! 3) :: 16 word) AND 0x03)
                             OR push_bit 3 (ucast (byts ! 4) :: 16 word)
                             OR (drop_bit 5 (ucast (byts ! 5) :: 16 word) AND 0x07)) - 7;
            frameCount = (byts ! 6) AND 0x03
        in
        if frameCount \<noteq> 0 then Inl ErrADTSdecodeMultipleFramesUnsupported
        else if int (length (drop 7 byts)) < frameLen then Inl ErrADTSdecodeFrameLengthInvalid
        else if frameLen < 0 then Inl PanicSliceBounds
        else Inr (\<lparr>Type = pktType,
                   SampleRate = sampleRates tb ! unat sampleRateIndex,
                   ChannelCount = channelCounts tb ! unat (channelConfig - 1),
                   AU = []\<rparr>, frameLen))"

text \<open>
  The loop of \<open>DecodeADTS\<close>: it ends on the empty input, and otherwise cuts one packet
  off the front. The slice \<open>byts[7 : 7+frameLen]\<close> panics when \<open>frameLen\<close> is negative,
  which \<open>decode_header\<close> reports.
\<close>

function DecodeADTS_loop :: "aac_tables \<Rightarrow> byte list \<Rightarrow> ADTSPacket list \<Rightarrow> adts_error + ADTSPacket list" where
  "DecodeADTS_loop tb byts ret =
     (if length byts = 0 then Inr ret
      else (case decode_header tb byts of
              Inl err \<Rightarrow> Inl err
            | Inr (pkt, frameLen) \<Rightarrow>
                DecodeADTS_loop tb (drop (7 + nat frameLen) byts)
                  (ret @ [pkt\<lparr>AU := take (nat frameLen) (drop 7 byts)\<rparr>])))"
  by pat_completeness auto
termination
  by (relation "measure (\<lambda>(tb, byts, ret). length byts)") auto

declare DecodeADTS_loop.simps [simp del]

definition DecodeADTS :: "aac_tables \<Rightarrow> byte list \<Rightarrow> adts_error + ADTSPacket list" where
  "DecodeADTS tb byts = DecodeADTS_loop tb byts []"

text \<open>The first index at which a table holds a value, as the two searches of the encoder find it.\<close>

fun index_of :: "int list \<Rightarrow> int \<Rightarrow> nat option" where
  "index_of [] v = None"
| "index_of (s # ss) v = (if s = v then Some 0 else map_option Suc (index_of ss v))"

text \<open>
  The seven bytes of the header. Go computes them on \<open>int\<close> and keeps the low eight
  bits; the bit operations on \<open>int\<close> agree with Go's on those bits.
\<close>

definition encode_header :: "int \<Rightarrow> int \<Rightarrow> int \<Rightarrow> int \<Rightarrow> byte list" where
  "encode_header pktType sampleRateIndex channelConfig frameLen =
     (let fullness = 0x07FF :: int in
      [0xFF,
       0xF1,
       word_of_int (push_bit 6 (pktType - 1) OR push_bit 2 sampleRateIndex OR (drop_bit 2 channelConfig AND 0x01)),
       word_of_int (push_bit 6 (channelConfig AND 0x03) OR (drop_bit 11 frameLen AND 0x03)),
       word_of_int (drop_bit 3 frameLen AND 0xFF),
       word_of_int (push_bit 5 (frameLen AND 0x07) OR (drop_bit 6 fullness AND 0x1F)),
       word_of_int (push_bit 2 (fullness AND 0x3F))])"

fun EncodeADTS_loop :: "aac_tables \<Rightarrow> ADTSPacket list \<Rightarrow> byte list \<Rightarrow> adts_error + byte list" where
  "EncodeADTS_loop tb [] ret = Inr ret"
| "EncodeADTS_loop tb (pkt # pkts) ret =
     (case index_of (sampleRates tb) (SampleRate pkt) of
        None \<Rightarrow> Inl (ErrADTSencodeSampleRateInvalid (SampleRate pkt))
      | Some sampleRateIndex \<Rightarrow>
     (case index_of (channelCounts tb) (ChannelCount pkt) of
        None \<Rightarrow> Inl (ErrADTSencodeChannelCountInvalid (ChannelCount pkt))
      | Some i \<Rightarrow>
          let channelConfig = int i + 1;
              frameLen = int (length (AU pkt)) + 7
          in EncodeADTS_loop tb pkts
               (ret @ encode_header (Type pkt) (int sampleRateIndex) channelConfig frameLen @ AU pkt)))"

definition EncodeADTS :: "aac_tables \<Rightarrow> ADTSPacket list \<Rightarrow> adts_error + byte list" where
  "EncodeADTS tb pkts = EncodeADTS_loop tb pkts []"

text \<open>
  The bytes \<open>EncodeADTS\<close> appends for one packet whose sample rate and channel count
  are in the tables.
\<close>

definition frame :: "aac_tables \<Rightarrow> ADTSPacket \<Rightarrow> byte list" where
  "frame tb pkt =
     encode_header (Type pkt)
       (int (the (index_of (sampleRates tb) (SampleRate pkt))))
       (int (the (index_of (channelCounts tb) (ChannelCount pkt))) + 1)
       (int (length (AU pkt)) + 7) @ AU pkt"

text \<open>
  A packet the round trip is stated for: its type is AAC-LC, its sample rate and channel
  count are in the tables, and its payload is shorter than 8185 bytes.
\<close>

definition encodable :: "aac_tables \<Rightarrow> ADTSPacket \<Rightarrow> bool" where
  "encodable tb pkt \<longleftrightarrow>
     Type pkt = MPEG4AudioTypeAACLC tb \<and> SampleRate pkt \<in> set (sampleRates tb) \<and>
     ChannelCount pkt \<in> set (channelCounts tb) \<and> length (AU pkt) < 8185"

section \<open>pkg/base: RTSP headers\<close>

definition headerMaxEntryCount :: nat where
  "headerMaxEntryCount = 255"

definition headerMaxKeyLength :: nat where
  "headerMaxKeyLength = 512"

definition headerMaxValueLength :: nat where
  "headerMaxValueLength = 2048"

text \<open>
  \<open>strings.ToLower\<close>, as far as \<open>headerKeyNormalize\<close> depends on it. The function
  lowers the letters A to Z; of all characters outside ASCII only U+0130 and U+212A become
  ASCII letters (i and k). Every other byte outside ASCII gives bytes outside ASCII in
  Go, and is kept as it is here, so the result equals an ASCII string here exactly when it
  does in Go.
\<close>

definition to_lower :: "char \<Rightarrow> char" where
  "to_lower c =
     (case map_of (zip ''ABCDEFGHIJKLMNOPQRSTUVWXYZ'' ''abcdefghijklmnopqrstuvwxyz'') c of
        Some l \<Rightarrow> l | None \<Rightarrow> c)"

definition to_upper :: "char \<Rightarrow> char" where
  "to_upper c =
     (case map_of (zip ''abcdefghijklmnopqrstuvwxyz'' ''ABCDEFGHIJKLMNOPQRSTUVWXYZ'') c of
        Some u \<Rightarrow> u | None \<Rightarrow> c)"

fun ToLower :: "string \<Rightarrow> string" where
  "ToLower [] = []"
| "ToLower (c # cs) =
     (if c = CHR 0xC4 \<and> take 1 cs = [CHR 0xB0] then CHR ''i'' # ToLower (drop 1 cs)
      else if c = CHR 0xE2 \<and> take 2 cs = [CHR 0x84, CHR 0xAA] then CHR ''k'' # ToLower (drop 2 cs)
      else to_lower c # ToLower cs)"

text \<open>
  \<open>http.CanonicalHeaderKey\<close>: a key with a byte that is not a token character is
  returned as it is; otherwise the first letter and every letter after a hyphen become
  upper case and the other letters lower case.
\<close>

definition validHeaderFieldByte :: "char \<Rightarrow> bool" where
  "validHeaderFieldByte c \<longleftrightarrow>
     c \<in> set (''ABCDEFGHIJKLMNOPQRSTUVWXYZabcdefghijklmnopqrstuvwxyz0123456789'' @
              [CHR 0x21, CHR 0x23, CHR 0x24, CHR 0x25, CHR 0x26, CHR 0x27, CHR 0x2A, CHR 0x2B,
               CHR 0x2D, CHR 0x2E, CHR 0x5E, CHR 0x5F, CHR 0x60, CHR 0x7C, CHR 0x7E])"

fun canonical_case :: "bool \<Rightarrow> string \<Rightarrow> string" where
  "canonical_case upper [] = []"
| "canonical_case upper (c # cs) =
     (let c' = (if upper then to_upper c else to_lower c)
      in c' # canonical_case (c' = CHR ''-'') cs)"

definition CanonicalHeaderKey :: "string \<Rightarrow> string" where
  "CanonicalHeaderKey s = (if list_all validHeaderFieldByte s then canonical_case True s else s)"

definition headerKeyNormalize :: "string \<Rightarrow> string" where
  "headerKeyNormalize in_key =
     (let l = ToLower in_key in
      if l = ''rtp-info'' then ''RTP-Info''
      else if l = ''www-authenticate'' then ''WWW-Authenticate''
      else if l = ''cseq'' then ''CSeq''
      else CanonicalHeaderKey in_key)"

type_synonym Header = "string \<rightharpoonup> string list"

text \<open>The value of \<open>h[key]\<close>: the nil slice for a key the map does not hold.\<close>

definition values_of :: "Header \<Rightarrow> string \<Rightarrow> string list" where
  "values_of h key = (case h key of None \<Rightarrow> [] | Some vals \<Rightarrow> vals)"

datatype header_error =
    ErrEOF
  | ErrBufferLength nat
  | ErrNewLine char
  | ErrHeaderCountExceeds
  | ErrHeaderValueMissing

text \<open>
  Modelled from the spec: the helpers \<open>readBytesLimited\<close> and \<open>readNewLine\<close>, which
  \<open>Header.read\<close> calls and which are not among the source files. The spec frames lines
  with CRLF and bounds a header key by 512 bytes and a value by 2048 bytes; \<open>Header.read\<close>
  reads the first byte of a key itself and then asks for the rest up to the colon with
  the limit 511, and asks for a value up to CR with the limit 2048. So
  \<open>readBytesLimited rb delim n\<close> takes the bytes up to and including the first \<open>delim\<close>
  off the input and returns them, and fails when more than \<open>n\<close> bytes come before the
  delimiter or the input ends without one; \<open>readNewLine\<close> takes one byte, which must be
  LF.
\<close>

definition readBytesLimited :: "string \<Rightarrow> char \<Rightarrow> nat \<Rightarrow> header_error + (string \<times> string)" where
  "readBytesLimited rb delim n =
     (let content = takeWhile (\<lambda>c. c \<noteq> delim) rb in
      if n < length content then Inl (ErrBufferLength n)
      else if length content = length rb then Inl ErrEOF
      else Inr (content @ [delim], drop (Suc (length content)) rb))"

definition readNewLine :: "string \<Rightarrow> header_error + string" where
  "readNewLine rb =
     (case rb of
        [] \<Rightarrow> Inl ErrEOF
      | byt # rest \<Rightarrow> if byt = LF then Inr rest else Inl (ErrNewLine byt))"

text \<open>
  The loop that reads bytes while they are spaces, and the \<open>UnreadByte\<close> after it, which
  puts the first other byte back: the input ending among the spaces is the error of
  \<open>ReadByte\<close>.
\<close>

definition skip_spaces :: "string \<Rightarrow> header_error + string" where
  "skip_spaces rb =
     (let rest = dropWhile (\<lambda>c. c = CHR '' '') rb in
      if rest = [] then Inl ErrEOF else Inr rest)"

text \<open>
  One turn of the loop of \<open>Header.read\<close> after the count was checked: \<open>byt\<close> is the byte
  already read, the result is the key, the value and the input left.
\<close>

definition read_entry :: "char \<Rightarrow> string \<Rightarrow> header_error + (string \<times> string \<times> string)" where
  "read_entry byt rb =
     (case readBytesLimited rb (CHR '':'') (headerMaxKeyLength - 1) of
        Inl err \<Rightarrow> Inl ErrHeaderValueMissing
      | Inr (byts, rb1) \<Rightarrow>
          let key = headerKeyNormalize ([byt] @ butlast byts) in
          (case skip_spaces rb1 of
             Inl err \<Rightarrow> Inl err
           | Inr rb2 \<Rightarrow>
               (case readBytesLimited rb2 CR headerMaxValueLength of
                  Inl err \<Rightarrow> Inl err
                | Inr (byts2, rb3) \<Rightarrow>
                    let val = butlast byts2 in
                    (case readNewLine rb3 of
                       Inl err \<Rightarrow> Inl err
                     | Inr rb4 \<Rightarrow> Inr (key, val, rb4)))))"

lemma readBytesLimited_shorter:
  assumes "readBytesLimited rb delim n = Inr (byts, rest)"
  shows "length rest < length rb"
proof -
  let ?content = "takeWhile (\<lambda>c. c \<noteq> delim) rb"
  from assms have r: "rest = drop (Suc (length ?content)) rb"
    and ne: "length ?content \<noteq> length rb"
    by (simp_all add: readBytesLimited_def Let_def split: if_splits)
  have "length ?content \<le> length rb"
    by (rule length_takeWhile_le)
  with ne have "length ?content < length rb"
    by simp
  then show ?thesis
    by (simp add: r)
qed

lemma skip_spaces_shorter:
  assumes "skip_spaces rb = Inr rest"
  shows "length rest \<le> length rb"
proof -
  from assms have "rest = dropWhile (\<lambda>c. c = CHR '' '') rb"
    by (simp add: skip_spaces_def Let_def split: if_splits)
  then show ?thesis
    by (simp add: length_dropWhile_le)
qed

lemma readNewLine_shorter:
  assumes "readNewLine rb = Inr rest"
  shows "length rest < length rb"
  using assms by (cases rb) (simp_all add: readNewLine_def split: if_splits)

lemma read_entry_shorter:
  assumes "read_entry byt rb = Inr (key, val, rest)"
  shows "length rest < length rb"
proof (cases "readBytesLimited rb (CHR '':'') (headerMaxKeyLength - 1)")
  case (Inl err)
  with assms show ?thesis by (simp add: read_entry_def)
next
  case (Inr r1)
  obtain byts rb1 where r1: "r1 = (byts, rb1)" by (cases r1)
  note s1 = Inr [unfolded r1]
  show ?thesis
  proof (cases "skip_spaces rb1")
    case (Inl err)
    with assms s1 show ?thesis by (simp add: read_entry_def)
  next
    case s2: (Inr rb2)
    show ?thesis
    proof (cases "readBytesLimited rb2 CR headerMaxValueLength")
      case (Inl err)
      with assms s1 s2 show ?thesis by (simp add: read_entry_def)
    next
      case (Inr r3)
      obtain byts2 rb3 where r3: "r3 = (byts2, rb3)" by (cases r3)
      note s3 = Inr [unfolded r3]
      show ?thesis
      proof (cases "readNewLine rb3")
        case (Inl err)
        with assms s1 s2 s3 show ?thesis by (simp add: read_entry_def)
      next
        case (Inr rb4)
        with assms s1 s2 s3 have "rb4 = rest" by (simp add: read_entry_def)
        with readBytesLimited_shorter [OF s1] skip_spaces_shorter [OF s2]
          readBytesLimited_shorter [OF s3] readNewLine_shorter [OF Inr]
        show ?thesis by simp
      qed
    qed
  qed
qed

function read_loop :: "Header \<Rightarrow> nat \<Rightarrow> string \<Rightarrow> header_error + (Header \<times> string)" where
  "read_loop h count rb =
     (case rb of
        [] \<Rightarrow> Inl ErrEOF
      | byt # rb1 \<Rightarrow>
          if byt = CR then
            (case readNewLine rb1 of Inl err \<Rightarrow> Inl err | Inr rb2 \<Rightarrow> Inr (h, rb2))
          else if count \<ge> headerMaxEntryCount then Inl ErrHeaderCountExceeds
          else
            (case read_entry byt rb1 of
               Inl err \<Rightarrow> Inl err
             | Inr (key, val, rb2) \<Rightarrow>
                 read_loop (h(key \<mapsto> values_of h key @ [val])) (count + 1) rb2))"
  by pat_completeness auto
termination
  by (relation "measure (\<lambda>(h, count, rb). length rb)")
     (auto dest: read_entry_shorter)

declare read_loop.simps [simp del]

text \<open>
  \<open>Header.read\<close> on the bytes the reader holds: the header and the input left, or the
  error.
\<close>

definition Header_read :: "string \<Rightarrow> header_error + (Header \<times> string)" where
  "Header_read rb = read_loop Map.empty 0 rb"

text \<open>
  \<open>Header.write\<close>, as the bytes it appends to the buffer. The slice of keys is made
  with \<open>len(h)\<close> empty strings, the keys of the map are appended to it in the order the
  map yields them, and the slice is sorted, which makes the order of the map immaterial.
\<close>

definition Header_write :: "Header \<Rightarrow> string" where
  "Header_write h =
     (let keys = sort (replicate (card (dom h)) [] @ sorted_list_of_set (dom h)) in
      concat (map (\<lambda>key. concat (map (\<lambda>val. key @ '': '' @ val @ [CR, LF]) (values_of h key))) keys)
      @ [CR, LF])"

text \<open>
  For stating the round trip: the line \<open>Header.write\<close> writes for a key and one of
  its values, the keys and values that survive the round trip, the update
  \<open>Header.read\<close> makes for one line, and the key-value pairs of a header in the order
  of a list of keys.
\<close>

definition header_line :: "string \<times> string \<Rightarrow> string" where
  "header_line kv = fst kv @ '': '' @ snd kv @ [CR, LF]"

definition key_ok :: "string \<Rightarrow> bool" where
  "key_ok k \<longleftrightarrow>
     k \<noteq> [] \<and> hd k \<noteq> CR \<and> CHR '':'' \<notin> set (tl k) \<and> length k \<le> headerMaxKeyLength \<and>
     headerKeyNormalize k = k"

definition value_ok :: "string \<Rightarrow> bool" where
  "value_ok v \<longleftrightarrow>
     length v \<le> headerMaxValueLength \<and> take 1 v \<noteq> '' '' \<and> CR \<notin> set v \<and> LF \<notin> set v"

definition add_value :: "Header \<Rightarrow> string \<times> string \<Rightarrow> Header" where
  "add_value h kv = h(fst kv \<mapsto> values_of h (fst kv) @ [snd kv])"

definition entries :: "Header \<Rightarrow> string list \<Rightarrow> (string \<times> string) list" where
  "entries h keys = concat (map (\<lambda>key. map (Pair key) (values_of h key)) keys)"

chapter \<open>Theorems\<close>

section \<open>Decimal numerals\<close>

lemma digit_val_digit_char: "d < 10 \<Longrightarrow> digit_val (digit_char d) = d"
proof -
  assume "d < 10"
  then have "d \<in> {0,1,2,3,4,5,6,7,8,9}" by auto
  then show ?thesis by (auto simp: digit_val_def digit_char_def)
qed

lemma dec_val_snoc: "dec_val (s @ [c]) = dec_val s * 10 + digit_val c"
  by (simp add: dec_val_def)

lemma dec_val_Itoa: "dec_val (Itoa n) = n"
proof (induction n rule: Itoa.induct)
  case (1 n)
  show ?case
  proof (cases "n < 10")
    case True
    then show ?thesis by (simp add: Itoa.simps [of n] dec_val_def digit_val_digit_char)
  next
    case False
    with 1 show ?thesis
      by (simp add: Itoa.simps [of n] dec_val_snoc digit_val_digit_char)
  qed
qed

lemma Itoa_255: "Itoa n = ''255'' \<longleftrightarrow> n = 255"
proof
  assume "Itoa n = ''255''"
  then have "dec_val (Itoa n) = dec_val ''255''" by simp
  then show "n = 255" by (simp add: dec_val_Itoa) (simp add: dec_val_def digit_val_def)
next
  assume "n = 255"
  then show "Itoa n = ''255''" by (simp add: Itoa.simps digit_char_def)
qed

section \<open>Segment durations\<close>

lemma parseDurations_loop_eq:
  "parseDurations_loop lines durations =
     durations @ map (\<lambda>line. take 5 (drop 8 line))
       (filter (\<lambda>line. length line = 17 \<and> take 8 line = ''#EXTINF:'') lines)"
  by (induction lines arbitrary: durations) auto


lemma one_digit_entry_shape:
  assumes "one_digit_entry line"
  obtains d f1 f2 f3 f4 f5 f6 where
    "line = ''#EXTINF:'' @ [d, CHR ''.'', f1, f2, f3, f4, f5, f6, CHR '','']"
    "is_digit d" "is_digit f1" "is_digit f2" "is_digit f3"
    "extinf_seconds line = [d]" "extinf_fraction line = [f1, f2, f3, f4, f5, f6]"
proof -
  from assms have wf: "extinf_wellformed line" and l1: "length (extinf_seconds line) = 1"
    by (auto simp: one_digit_entry_def)
  from l1 obtain d where d: "extinf_seconds line = [d]"
    by (cases "extinf_seconds line") auto
  from wf have l6: "length (extinf_fraction line) = 6" by (simp add: extinf_wellformed_def)
  then obtain f1 f2 f3 f4 f5 f6 where f: "extinf_fraction line = [f1, f2, f3, f4, f5, f6]"
    by (auto simp: length_Suc_conv eval_nat_numeral)
  from wf d f have "line = ''#EXTINF:'' @ [d, CHR ''.'', f1, f2, f3, f4, f5, f6, CHR '','']"
    by (simp add: extinf_wellformed_def)
  moreover from wf d f have "is_digit d" "is_digit f1" "is_digit f2" "is_digit f3"
    by (simp_all add: extinf_wellformed_def)
  ultimately show ?thesis using that d f by blast
qed

lemma is_digit_not_special:
  "is_digit c \<Longrightarrow> c \<noteq> CHR ''.'' \<and> c \<noteq> CHR ''-'' \<and> c \<noteq> CHR ''+''"
  by (auto simp: is_digit_def less_eq_char_def)

lemma digit_val_le: "is_digit c \<Longrightarrow> digit_val c \<le> 9"
  by (auto simp: is_digit_def digit_val_def less_eq_char_def)

lemma one_digit_entry_length: "one_digit_entry line \<Longrightarrow> length line = 17 \<and> take 8 line = ''#EXTINF:''"
  by (erule one_digit_entry_shape) simp

lemma one_digit_entry_Atoi:
  assumes "one_digit_entry line"
  shows "Atoi (ReplaceAll_dot (take 5 (drop 8 line))) = Inr (extinf_millis line)"
proof -
  from assms obtain d f1 f2 f3 f4 f5 f6 where
    line: "line = ''#EXTINF:'' @ [d, CHR ''.'', f1, f2, f3, f4, f5, f6, CHR '','']"
    and dg: "is_digit d" "is_digit f1" "is_digit f2" "is_digit f3"
    and s: "extinf_seconds line = [d]" and f: "extinf_fraction line = [f1, f2, f3, f4, f5, f6]"
    by (rule one_digit_entry_shape)
  have r: "ReplaceAll_dot (take 5 (drop 8 line)) = [d, f1, f2, f3]"
    using dg by (simp add: line ReplaceAll_dot_def is_digit_not_special)
  have v: "dec_val [d, f1, f2, f3] = dec_val [d] * 1000 + dec_val [f1, f2, f3]"
    by (simp add: dec_val_def)
  have b: "dec_val [d, f1, f2, f3] \<le> 9999"
    using dg [THEN digit_val_le] by (simp add: dec_val_def)
  have "Atoi [d, f1, f2, f3] = Inr (int (dec_val [d, f1, f2, f3]))"
    using dg b by (simp add: Atoi_def Let_def is_digit_not_special)
  then show ?thesis
    by (simp add: r v extinf_millis_def s f)
qed

lemma sum_loop_sum:
  assumes "i \<le> length durations"
    and "\<And>k. k < i \<Longrightarrow>
           Atoi (ReplaceAll_dot (durations ! (length durations - i + k))) = Inr (ms ! (length durations - i + k))"
    and "length ms = length durations"
  shows "sum_loop durations i acc =
           Ret ((acc + word_of_int (sum_list (drop (length durations - i) ms))) * Millisecond) None"
  using assms
proof (induction i arbitrary: acc)
  case 0
  then show ?case by simp
next
  case (Suc i)
  from Suc.prems(1) have lt: "length durations - Suc i < length durations" by simp
  have at: "Atoi (ReplaceAll_dot (durations ! (length durations - Suc i))) = Inr (ms ! (length durations - Suc i))"
    using Suc.prems(2) [of 0] by simp
  have rest: "\<And>k. k < i \<Longrightarrow>
           Atoi (ReplaceAll_dot (durations ! (length durations - i + k))) = Inr (ms ! (length durations - i + k))"
  proof -
    fix k assume "k < i"
    then have "Suc k < Suc i" by simp
    from Suc.prems(2) [OF this] Suc.prems(1)
    show "Atoi (ReplaceAll_dot (durations ! (length durations - i + k))) = Inr (ms ! (length durations - i + k))"
      by (simp add: Suc_diff_Suc)
  qed
  have dr: "drop (length durations - Suc i) ms
              = ms ! (length durations - Suc i) # drop (length durations - i) ms"
    using Suc.prems(1,3) lt
    by (metis Cons_nth_drop_Suc Suc_diff_Suc Suc_le_lessD)
  have "sum_loop durations (Suc i) acc
          = sum_loop durations i (acc + word_of_int (ms ! (length durations - Suc i)))"
    using Suc.prems(1) at by simp
  also have "\<dots> = Ret ((acc + word_of_int (ms ! (length durations - Suc i))
                        + word_of_int (sum_list (drop (length durations - i) ms))) * Millisecond) None"
    using Suc.IH [OF _ rest Suc.prems(3)] Suc.prems(1) by simp
  finally show ?case
    by (simp add: dr add.assoc)
qed

lemma parseDurations_entries:
  assumes "\<forall>line \<in> set (extinf_entries m3u8). one_digit_entry line"
  shows "parseDurations m3u8 = map (\<lambda>line. take 5 (drop 8 line)) (extinf_entries m3u8)"
proof -
  have "filter (\<lambda>line. length line = 17 \<and> take 8 line = ''#EXTINF:'') (playlist_lines m3u8)
          = filter (\<lambda>line. take 8 line = ''#EXTINF:'') (playlist_lines m3u8)"
  proof (rule filter_cong [OF refl])
    fix line assume mem: "line \<in> set (playlist_lines m3u8)"
    have "length line = 17" if p: "take 8 line = ''#EXTINF:''"
    proof -
      from mem p have "line \<in> set (extinf_entries m3u8)"
        unfolding extinf_entries_def set_filter by blast
      with assms have "one_digit_entry line" by blast
      then show ?thesis by (rule one_digit_entry_length [THEN conjunct1])
    qed
    then show "(length line = 17 \<and> take 8 line = ''#EXTINF:'') = (take 8 line = ''#EXTINF:'')"
      by blast
  qed
  then show ?thesis
    by (simp add: parseDurations_def parseDurations_loop_eq extinf_entries_def playlist_lines_def)
qed

text \<open>
  What \<open>getSegmentDuration\<close> computes when every segment is shorter than ten seconds.
  \<open>parseDurations\<close> keeps only the lines of exactly 17 bytes that start with
  \<open>#EXTINF:\<close>, which are the entries that give the seconds with one digit: when the
  file is readable, every \<open>#EXTINF\<close> line of the playlist is such an entry and
  \<open>nSegments\<close> is not negative, \<open>getSegmentDuration\<close> returns the error of too few
  entries when the playlist has fewer than \<open>nSegments\<close> of them, and otherwise the sum,
  in whole milliseconds, of the durations of the last \<open>nSegments\<close> entries, as a
  \<open>time.Duration\<close>.
\<close>

lemma getSegmentDuration_last_segments:
  assumes "fs hlsPath = Some m3u8"
    and "\<forall>line \<in> set (extinf_entries m3u8). one_digit_entry line"
    and "0 \<le> nSegments"
  shows "getSegmentDuration fs hlsPath nSegments =
     (if int (length (extinf_entries m3u8)) < nSegments then Ret 0 (Some (ErrInvalidFile m3u8))
      else Ret (word_of_int (sum_list (map extinf_millis
                  (last_entries (nat nSegments) (extinf_entries m3u8)))) * Millisecond) None)"
proof (cases "int (length (extinf_entries m3u8)) < nSegments")
  case True
  then show ?thesis
    using assms(1) by (simp add: getSegmentDuration_def parseDurations_entries [OF assms(2)])
next
  case False
  define entries where "entries = extinf_entries m3u8"
  define durations where "durations = map (\<lambda>line. take 5 (drop 8 line)) entries"
  define ms where "ms = map extinf_millis entries"
  have le: "nat nSegments \<le> length durations"
    using False assms(3) by (simp add: durations_def entries_def)
  have parse: "Atoi (ReplaceAll_dot (durations ! k)) = Inr (ms ! k)" if "k < length durations" for k
  proof -
    from that have "entries ! k \<in> set entries" by (simp add: durations_def)
    with assms(2) have "one_digit_entry (entries ! k)" by (simp add: entries_def)
    from one_digit_entry_Atoi [OF this] that show ?thesis
      by (simp add: durations_def ms_def)
  qed
  have "sum_loop durations (nat nSegments) 0 =
          Ret ((0 + word_of_int (sum_list (drop (length durations - nat nSegments) ms))) * Millisecond) None"
  proof (rule sum_loop_sum [OF le])
    fix k assume "k < nat nSegments"
    with le show "Atoi (ReplaceAll_dot (durations ! (length durations - nat nSegments + k)))
                    = Inr (ms ! (length durations - nat nSegments + k))"
      by (intro parse) simp
  next
    show "length ms = length durations" by (simp add: ms_def durations_def)
  qed
  moreover have "drop (length durations - nat nSegments) ms
                   = map extinf_millis (last_entries (nat nSegments) entries)"
    by (simp add: ms_def durations_def last_entries_def drop_map)
  moreover have "length durations = length entries"
    by (simp add: durations_def)
  ultimately show ?thesis
    using False assms(1,3)
    by (simp add: getSegmentDuration_def parseDurations_entries [OF assms(2)]
        durations_def [symmetric] entries_def [symmetric])
qed

text \<open>The theorem at a playlist of two segments, 4.25 s and 3.5 s long.\<close>

lemma getSegmentDuration_short_segments_example:
  "getSegmentDuration
     [''stream.m3u8'' \<mapsto> ''#EXTM3U\<newline>#EXT-X-TARGETDURATION:5\<newline>#EXTINF:4.250000,\<newline>10.ts\<newline>#EXTINF:3.500000,\<newline>11.ts\<newline>'']
     ''stream.m3u8'' 2 = Ret 7750000000 None"
proof -
  let ?m = "''#EXTM3U\<newline>#EXT-X-TARGETDURATION:5\<newline>#EXTINF:4.250000,\<newline>10.ts\<newline>#EXTINF:3.500000,\<newline>11.ts\<newline>''"
  have e: "extinf_entries ?m = [''#EXTINF:4.250000,'', ''#EXTINF:3.500000,'']"
    by code_simp
  have d: "one_digit_entry ''#EXTINF:4.250000,''" "one_digit_entry ''#EXTINF:3.500000,''"
    by code_simp+
  have m: "extinf_millis ''#EXTINF:4.250000,'' = 4250" "extinf_millis ''#EXTINF:3.500000,'' = 3500"
    by code_simp+
  have h2: "\<forall>line \<in> set (extinf_entries ?m). one_digit_entry line"
    using d by (simp add: e)
  have h1: "[''stream.m3u8'' \<mapsto> ?m] ''stream.m3u8'' = Some ?m"
    by simp
  have h3: "(0::int) \<le> 2"
    by simp
  from getSegmentDuration_last_segments
         [of "[''stream.m3u8'' \<mapsto> ?m]" "''stream.m3u8''" ?m 2, OF h1 h2 h3]
  show ?thesis
    unfolding e by (simp add: m last_entries_def Millisecond_def)
qed


text \<open>
  Claim C1 fails on the code. \<open>WaitForKeyframe\<close> and \<open>getSegmentDuration\<close> are to
  return the combined duration of the last \<open>nSegments\<close> segments, but
  \<open>parseDurations\<close> drops every entry whose line is not 17 bytes long, and the line of
  a segment of ten seconds or more has 18. The playlist below has three well-formed
  entries, of 4.25 s, 10.25 s and 3.5 s; its last two entries are 10250 ms and 3500 ms
  long, 13750 ms together, and \<open>getSegmentDuration\<close> for two segments returns 7750 ms,
  the sum of the first and the third entry, with a nil error.
\<close>

theorem getSegmentDuration_skips_long_segment:
  "extinf_entries ''#EXTM3U\<newline>#EXTINF:4.250000,\<newline>9.ts\<newline>#EXTINF:10.250000,\<newline>10.ts\<newline>#EXTINF:3.500000,\<newline>11.ts\<newline>''
     = [''#EXTINF:4.250000,'', ''#EXTINF:10.250000,'', ''#EXTINF:3.500000,''] \<and>
   map extinf_wellformed [''#EXTINF:4.250000,'', ''#EXTINF:10.250000,'', ''#EXTINF:3.500000,'']
     = [True, True, True] \<and>
   map extinf_millis (last_entries 2
       [''#EXTINF:4.250000,'', ''#EXTINF:10.250000,'', ''#EXTINF:3.500000,'']) = [10250, 3500] \<and>
   parseDurations ''#EXTM3U\<newline>#EXTINF:4.250000,\<newline>9.ts\<newline>#EXTINF:10.250000,\<newline>10.ts\<newline>#EXTINF:3.500000,\<newline>11.ts\<newline>''
     = [''4.250'', ''3.500''] \<and>
   getSegmentDuration
     [''stream.m3u8'' \<mapsto> ''#EXTM3U\<newline>#EXTINF:4.250000,\<newline>9.ts\<newline>#EXTINF:10.250000,\<newline>10.ts\<newline>#EXTINF:3.500000,\<newline>11.ts\<newline>'']
     ''stream.m3u8'' 2 = Ret (7750 * Millisecond) None"
  by code_simp
section \<open>The child-process supervisor\<close>

text \<open>
  Claim C5: when the child was started and exits with status 255, \<open>Start\<close> returns nil;
  when it exits with any other status that is not zero, \<open>Start\<close> returns an error.
\<close>

theorem Start_exit_status:
  "(child_ran c (Exited 255) copy_err \<longrightarrow> Start p c = None) \<and>
   (child_ran c (Exited n) copy_err \<and> n \<noteq> 0 \<and> n \<noteq> 255 \<longrightarrow> Start p c \<noteq> None)"
  by (simp add: child_ran_def Start_def attachLogger_def cmd_Wait_def Itoa_255)

text \<open>The theorem at a child that exits with status 255, and at one that exits with status 1.\<close>

theorem Start_exit_status_witness:
  "Start \<lparr>stdoutLogger = True, stderrLogger = True\<rparr>
     \<lparr>StdoutPipe = None, StderrPipe = None, cmd_Start = None,
      Wait = cmd_Wait (Exited 255) None\<rparr> = None \<and>
   Start \<lparr>stdoutLogger = True, stderrLogger = True\<rparr>
     \<lparr>StdoutPipe = None, StderrPipe = None, cmd_Start = None,
      Wait = cmd_Wait (Exited 1) None\<rparr> \<noteq> None"
  using Start_exit_status [of "\<lparr>StdoutPipe = None, StderrPipe = None, cmd_Start = None,
      Wait = cmd_Wait (Exited 255) None\<rparr>" None "\<lparr>stdoutLogger = True, stderrLogger = True\<rparr>" 1]
    Start_exit_status [of "\<lparr>StdoutPipe = None, StderrPipe = None, cmd_Start = None,
      Wait = cmd_Wait (Exited 1) None\<rparr>" None "\<lparr>stdoutLogger = True, stderrLogger = True\<rparr>" 1]
  by (simp add: child_ran_def)

section \<open>Waiting for a keyframe\<close>

lemma deadline: "unat (30 * Second) = 30000000000"
  by (simp add: Second_def Millisecond_def)

lemma sum_loop_not_timeout: "sum_loop durations i acc \<noteq> Ret d (Some ErrKeyFrameTimeout)"
  by (induction i arbitrary: acc) (auto split: sum.splits)

lemma getSegmentDuration_not_timeout:
  "getSegmentDuration fs hlsPath nSegments \<noteq> Ret d (Some ErrKeyFrameTimeout)"
  by (auto simp: getSegmentDuration_def Let_def sum_loop_not_timeout split: option.splits)

text \<open>
  Claim C9, as the code has it. \<open>WaitForKeyframe\<close> sets up the watcher before it
  waits, and returns the error of \<open>fsnotify.NewWatcher\<close> or of \<open>watcher.Add\<close>
  without looking at the context. When the watcher was set up and the context is
  cancelled before the watcher reports an event or an error and before the 30 seconds
  are over, the only value \<open>WaitForKeyframe\<close> can return is a zero duration with a nil
  error. A playlist update returns the same pair when zero segments are asked for, so the
  caller cannot tell the cancellation from that success.
\<close>

theorem WaitForKeyframe_cancelled:
  assumes "NewWatcher e = None" and "watcher_Add e = None"
    and "Done_at e = Some t" and "t < unat (30 * Second)"
    and "\<forall>t'. Events_at e = Some t' \<longrightarrow> t < t'"
    and "\<forall>t' err. Errors_at e = Some (t', err) \<longrightarrow> t < t'"
  shows "WaitForKeyframe e fs hlsPath nSegments = [Ret 0 None] \<and>
         (fs hlsPath \<noteq> None \<longrightarrow> getSegmentDuration fs hlsPath 0 = Ret 0 None)"
proof -
  have st: "select_time e = t"
    using assms(3-6)
    by (cases "Events_at e"; cases "Errors_at e")
       (auto simp: select_time_def earlier_def min_def)
  have "WaitForKeyframe e fs hlsPath nSegments = [Ret 0 None]"
    using assms
    by (cases "Events_at e"; cases "Errors_at e")
       (auto simp: WaitForKeyframe_def st)
  moreover have "fs hlsPath \<noteq> None \<longrightarrow> getSegmentDuration fs hlsPath 0 = Ret 0 None"
    by (auto simp: getSegmentDuration_def Let_def)
  ultimately show ?thesis by blast
qed

text \<open>The theorem at a context cancelled after two seconds, five seconds before the first event.\<close>

theorem WaitForKeyframe_cancelled_witness:
  "WaitForKeyframe \<lparr>NewWatcher = None, watcher_Add = None, Events_at = Some 7000000000,
       Errors_at = None, Done_at = Some 2000000000\<rparr>
     [''stream.m3u8'' \<mapsto> ''#EXTM3U''] ''stream.m3u8'' 1 = [Ret 0 None] \<and>
   getSegmentDuration [''stream.m3u8'' \<mapsto> ''#EXTM3U''] ''stream.m3u8'' 0 = Ret 0 None"
  using WaitForKeyframe_cancelled [of "\<lparr>NewWatcher = None, watcher_Add = None,
       Events_at = Some 7000000000, Errors_at = None, Done_at = Some 2000000000\<rparr>"
       2000000000 "[''stream.m3u8'' \<mapsto> ''#EXTM3U'']" "''stream.m3u8''" 1]
  by (simp add: deadline)

text \<open>
  Claim C9 as stated fails when the watcher cannot be set up: the context is cancelled
  from the start, no event, watcher error or time-out ever comes before that, and
  \<open>watcher.Add\<close> fails on the playlist path; \<open>WaitForKeyframe\<close> returns that error,
  not a nil error.
\<close>

theorem WaitForKeyframe_cancelled_no_watcher_counterexample:
  "WaitForKeyframe \<lparr>NewWatcher = None, watcher_Add = Some ''no such file or directory'',
       Events_at = None, Errors_at = None, Done_at = Some 0\<rparr>
     [''stream.m3u8'' \<mapsto> ''#EXTM3U''] ''stream.m3u8'' 1
     = [Ret 0 (Some (ErrWatcher ''no such file or directory''))] \<and>
   WaitForKeyframe \<lparr>NewWatcher = None, watcher_Add = Some ''no such file or directory'',
       Events_at = None, Errors_at = None, Done_at = Some 0\<rparr>
     [''stream.m3u8'' \<mapsto> ''#EXTM3U''] ''stream.m3u8'' 1 \<noteq> [Ret 0 None]"
  by (simp add: WaitForKeyframe_def)

text \<open>
  Claim C8, as the code has it. The \<open>select\<close> also waits for a watcher error and for
  the cancellation of the context, so the time-out is returned when none of the three
  happens within 30 seconds: when the watcher was set up and neither an event, nor a
  watcher error, nor the cancellation comes within 30 seconds, \<open>WaitForKeyframe\<close>
  returns a zero duration with \<open>ErrKeyFrameTimeout\<close>. No other return of
  \<open>WaitForKeyframe\<close> carries that error: whenever it is returned, the duration is zero
  and the 30 seconds have passed with no case ready before.
\<close>

theorem WaitForKeyframe_timeout:
  assumes "NewWatcher e = None" and "watcher_Add e = None"
    and "\<forall>t. Events_at e = Some t \<longrightarrow> unat (30 * Second) < t"
    and "\<forall>t err. Errors_at e = Some (t, err) \<longrightarrow> unat (30 * Second) < t"
    and "\<forall>t. Done_at e = Some t \<longrightarrow> unat (30 * Second) < t"
  shows "WaitForKeyframe e fs hlsPath nSegments = [Ret 0 (Some ErrKeyFrameTimeout)] \<and>
         (\<forall>e' fs' hlsPath' nSegments' d.
            Ret d (Some ErrKeyFrameTimeout) \<in> set (WaitForKeyframe e' fs' hlsPath' nSegments')
            \<longrightarrow> d = 0 \<and> select_time e' = unat (30 * Second))"
proof -
  have st: "select_time e = unat (30 * Second)"
    using assms(3-5)
    by (cases "Events_at e"; cases "Errors_at e"; cases "Done_at e")
       (auto simp: select_time_def earlier_def min_def)
  have "WaitForKeyframe e fs hlsPath nSegments = [Ret 0 (Some ErrKeyFrameTimeout)]"
    using assms
    by (cases "Events_at e"; cases "Errors_at e"; cases "Done_at e")
       (auto simp: WaitForKeyframe_def st)
  moreover have "d = 0 \<and> select_time e' = unat (30 * Second)"
    if "Ret d (Some ErrKeyFrameTimeout) \<in> set (WaitForKeyframe e' fs' hlsPath' nSegments')"
    for e' fs' hlsPath' nSegments' d
    using that
    by (auto simp: WaitForKeyframe_def getSegmentDuration_not_timeout
                   getSegmentDuration_not_timeout [symmetric]
             split: option.splits if_splits prod.splits)
  ultimately show ?thesis by blast
qed

text \<open>The theorem at a watcher whose first event comes after 31 seconds.\<close>

theorem WaitForKeyframe_timeout_witness:
  "WaitForKeyframe \<lparr>NewWatcher = None, watcher_Add = None, Events_at = Some 31000000000,
       Errors_at = None, Done_at = None\<rparr>
     [''stream.m3u8'' \<mapsto> ''#EXTM3U''] ''stream.m3u8'' 1 = [Ret 0 (Some ErrKeyFrameTimeout)]"
  using WaitForKeyframe_timeout [of "\<lparr>NewWatcher = None, watcher_Add = None,
       Events_at = Some 31000000000, Errors_at = None, Done_at = None\<rparr>"
       "[''stream.m3u8'' \<mapsto> ''#EXTM3U'']" "''stream.m3u8''" 1]
  by (simp add: deadline)

text \<open>
  Claim C8 as stated fails when the context is cancelled first: no playlist update comes
  at all, the context is cancelled after one second, and \<open>WaitForKeyframe\<close> returns a
  zero duration with a nil error, not the time-out.
\<close>

theorem WaitForKeyframe_cancel_wins_counterexample:
  "WaitForKeyframe \<lparr>NewWatcher = None, watcher_Add = None, Events_at = None,
       Errors_at = None, Done_at = Some 1000000000\<rparr>
     [''stream.m3u8'' \<mapsto> ''#EXTM3U''] ''stream.m3u8'' 1 = [Ret 0 None]"
  by (simp add: WaitForKeyframe_def select_time_def earlier_def deadline)

section \<open>The log bus\<close>


lemma dispatch_stopped: "status s \<noteq> Running \<Longrightarrow> dispatch s cs = s"
  by (cases cs) auto

lemma dispatch_append: "dispatch s (cs @ ds) = dispatch (dispatch s cs) ds"
  by (induction cs arbitrary: s) (auto simp: dispatch_stopped)

lemma step_unmentioned:
  assumes "c \<noteq> Sub ch" and "c \<noteq> Unsub ch" and "ch \<notin> subs s" and "ch \<notin> closed s"
  shows "ch \<notin> subs (step s c) \<and> ch \<notin> closed (step s c) \<and> received (step s c) ch = received s ch"
  using assms by (cases c) (auto simp: step_def)

lemma dispatch_unmentioned:
  assumes "Sub ch \<notin> set cs" and "Unsub ch \<notin> set cs" and "ch \<notin> subs s" and "ch \<notin> closed s"
  shows "ch \<notin> subs (dispatch s cs) \<and> ch \<notin> closed (dispatch s cs) \<and>
         received (dispatch s cs) ch = received s ch"
  using assms
proof (induction cs arbitrary: s)
  case Nil
  then show ?case by simp
next
  case (Cons c cs)
  show ?case
  proof (cases "status s = Running")
    case True
    from Cons.prems have "c \<noteq> Sub ch" "c \<noteq> Unsub ch" by auto
    from step_unmentioned [OF this Cons.prems(3,4)] Cons.IH [of "step s c"] Cons.prems(1,2) True
    show ?thesis by auto
  next
    case False
    with Cons.prems show ?thesis by simp
  qed
qed

lemma step_closed: "ch \<in> closed s \<Longrightarrow> ch \<in> closed (step s c) \<and> received (step s c) ch = received s ch"
  by (cases c) (auto simp: step_def)

lemma dispatch_closed: "ch \<in> closed s \<Longrightarrow> received (dispatch s cs) ch = received s ch"
proof (induction cs arbitrary: s)
  case Nil
  then show ?case by simp
next
  case (Cons c cs)
  from step_closed [OF Cons.prems, of c] Cons.IH [of "step s c"]
  show ?case by auto
qed

lemma dispatch_known:
  assumes "ch \<in> subs s \<or> ch \<in> closed s"
  shows "\<exists>r. received (dispatch s cs) ch = received s ch @ r \<and> prefix r (fed cs)"
  using assms
proof (induction cs arbitrary: s)
  case Nil
  then show ?case by simp
next
  case (Cons c cs)
  show ?case
  proof (cases "status s = Running")
    case False
    then show ?thesis by simp
  next
    case True
    show ?thesis
    proof (cases c)
      case CtxDone
      with True show ?thesis by (simp add: step_def dispatch_stopped)
    next
      case (Sub c')
      with Cons.prems have "ch \<in> subs (step s c) \<or> ch \<in> closed (step s c)"
        by (auto simp: step_def)
      from Cons.IH [OF this] Sub True show ?thesis by (simp add: step_def)
    next
      case (Unsub c')
      show ?thesis
      proof (cases "c' \<in> closed s")
        case True
        with Unsub \<open>status s = Running\<close> show ?thesis by (simp add: step_def dispatch_stopped)
      next
        case False
        with Unsub Cons.prems have "ch \<in> subs (step s c) \<or> ch \<in> closed (step s c)"
          by (auto simp: step_def)
        from Cons.IH [OF this] Unsub False True show ?thesis by (simp add: step_def)
      qed
    next
      case (Feed msg)
      show ?thesis
      proof (cases "subs s \<inter> closed s \<noteq> {}")
        case True
        with Feed \<open>status s = Running\<close> show ?thesis by (simp add: step_def dispatch_stopped)
      next
        case disjoint: False
        show ?thesis
        proof (cases "ch \<in> subs s")
          case True
          with Feed disjoint have "ch \<in> subs (step s c) \<or> ch \<in> closed (step s c)"
            and rc: "received (step s c) ch = received s ch @ [msg]"
            by (auto simp: step_def)
          from Cons.IH [OF this(1)] obtain r where
            "received (dispatch (step s c) cs) ch = received (step s c) ch @ r" "prefix r (fed cs)"
            by blast
          with rc Feed \<open>status s = Running\<close> show ?thesis by simp
        next
          case False
          with Cons.prems have cl: "ch \<in> closed s" by blast
          then have "ch \<in> closed (step s c)" by (simp add: step_closed)
          from dispatch_closed [OF this, of cs] step_closed [OF cl, of c] \<open>status s = Running\<close>
          show ?thesis by simp
        qed
      qed
    qed
  qed
qed

text \<open>
  Claim C6: \<open>Subscribe\<close> makes a new channel and hands it to the dispatcher, so the
  channel occurs in no case the dispatcher took before. In every run of the dispatcher,
  the records sent on that channel are, in order, records fed to the bus after the
  dispatcher added the channel to \<open>subs\<close>: none of the records fed before is among them.
\<close>

theorem subscriber_receives_only_later_records:
  assumes "Sub ch \<notin> set pre" and "Unsub ch \<notin> set pre"
  shows "prefix (received (Logger_Start (pre @ Sub ch # post)) ch) (fed post)"
proof -
  define s0 :: "('a, 'b) dispatcher"
    where "s0 = \<lparr>subs = {}, closed = {}, received = (\<lambda>ch. []), status = Running\<rparr>"
  define s1 where "s1 = dispatch s0 pre"
  have fresh: "ch \<notin> subs s1" "ch \<notin> closed s1" "received s1 ch = []"
    using dispatch_unmentioned [OF assms, of s0] by (simp_all add: s1_def s0_def)
  have run: "Logger_Start (pre @ Sub ch # post) = dispatch s1 (Sub ch # post)"
    by (simp add: Logger_Start_def dispatch_append s1_def s0_def)
  show ?thesis
  proof (cases "status s1 = Running")
    case False
    with run fresh show ?thesis by simp
  next
    case True
    have "ch \<in> subs (step s1 (Sub ch)) \<or> ch \<in> closed (step s1 (Sub ch))"
      by (simp add: step_def)
    from dispatch_known [OF this, of post] obtain r where
      "received (dispatch (step s1 (Sub ch)) post) ch = received (step s1 (Sub ch)) ch @ r"
      "prefix r (fed post)"
      by blast
    with run fresh True show ?thesis by (simp add: step_def)
  qed
qed

text \<open>
  The theorem at a run in which channel 2 subscribes after record \<open>a\<close> was fed to
  channel 1, and unsubscribes after record \<open>b\<close>: it receives \<open>b\<close> alone.
\<close>

theorem subscriber_receives_only_later_records_witness:
  "prefix (received (Logger_Start ([Sub (1::nat), Feed ''a''] @ Sub 2 # [Feed ''b'', Unsub 2, Feed ''c''])) 2)
     (fed [Feed ''b'', Unsub (2::nat), Feed ''c'']) \<and>
   received (Logger_Start ([Sub (1::nat), Feed ''a''] @ Sub 2 # [Feed ''b'', Unsub 2, Feed ''c''])) 2 = [''b'']"
  using subscriber_receives_only_later_records
          [of "2::nat" "[Sub 1, Feed ''a'']" "[Feed ''b'', Unsub 2, Feed ''c'']"]
  by (simp add: Logger_Start_def step_def)

section \<open>Polygon masks\<close>

lemma Rect_Alpha_Set: "Rect (Alpha_Set img x y a) = Rect img"
  by (simp add: Alpha_Set_def)

lemma Pix_Alpha_Set:
  "Pix (Alpha_Set img x y a) p =
     (if p = (x, y) \<and> Point_In (x, y) (Rect img) then a else Pix img p)"
  by (simp add: Alpha_Set_def)

lemma CreateMask_pixel_eq:
  "Rect (CreateMask_pixel poly y x img) = Rect img \<and>
   Pix (CreateMask_pixel poly y x img) p =
     (if p = (y, x) \<and> Point_In (y, x) (Rect img)
      then (if vertexInsidePoly y x poly then 255 else 0) else Pix img p)"
  by (simp add: CreateMask_pixel_def Rect_Alpha_Set Pix_Alpha_Set)

lemma column_loop:
  "Rect (fold (\<lambda>x img. CreateMask_pixel poly y x img) xs img) = Rect img \<and>
   Pix (fold (\<lambda>x img. CreateMask_pixel poly y x img) xs img) (a, b) =
     (if a = y \<and> b \<in> set xs \<and> Point_In (a, b) (Rect img)
      then (if vertexInsidePoly a b poly then 255 else 0) else Pix img (a, b))"
proof (induction xs arbitrary: img)
  case Nil
  then show ?case by simp
next
  case (Cons x xs)
  show ?case
    by (auto simp: Cons.IH CreateMask_pixel_eq)
qed

lemma mask_loops:
  "Rect (fold (\<lambda>y img. fold (\<lambda>x img. CreateMask_pixel poly y x img) xs img) ys img) = Rect img \<and>
   Pix (fold (\<lambda>y img. fold (\<lambda>x img. CreateMask_pixel poly y x img) xs img) ys img) (a, b) =
     (if a \<in> set ys \<and> b \<in> set xs \<and> Point_In (a, b) (Rect img)
      then (if vertexInsidePoly a b poly then 255 else 0) else Pix img (a, b))"
proof (induction ys arbitrary: img)
  case Nil
  then show ?case by simp
next
  case (Cons y ys)
  show ?case
    by (auto simp: Cons.IH column_loop)
qed

lemma NewAlpha_Image:
  assumes "NewAlpha alloc r = Image img"
  shows "img = \<lparr>Rect = r, Pix = (\<lambda>p. 0)\<rparr>"
proof (cases "Dx r < 0 \<or> Dy r < 0 \<or> 2 ^ 63 \<le> Dx r * Dy r")
  case True
  with assms show ?thesis unfolding NewAlpha_def by simp
next
  case False
  with assms show ?thesis unfolding NewAlpha_def by (cases "alloc (nat (Dx r * Dy r))") simp_all
qed

text \<open>
  When \<open>CreateMask\<close> returns an image, the image has the bounds
  \<open>image.Rect(0, 0, w, h)\<close>, and its alpha at a point \<open>(x, y)\<close> is 255 exactly when
  the point lies in \<open>[0,w) \<times> [0,h)\<close> and \<open>vertexInsidePoly\<close> holds of it, and 0
  otherwise. The loop variables of the source are named the other way round, but the test
  and the pixel use them alike, so no axis is swapped.
\<close>

lemma CreateMask_Image:
  assumes "CreateMask alloc w h poly = Image img"
  shows "Alpha_At img x y =
           (if 0 \<le> x \<and> x < w \<and> 0 \<le> y \<and> y < h \<and> vertexInsidePoly x y poly then 255 else 0) \<and>
         Rect img = image_Rect 0 0 w h"
proof -
  obtain img0 where new: "NewAlpha alloc (image_Rect 0 0 w h) = Image img0"
    and img: "img = fold (\<lambda>y img. fold (\<lambda>x img. CreateMask_pixel poly y x img) [0..h - 1] img)
                   [0..w - 1] img0"
    using assms unfolding CreateMask_def by (cases "NewAlpha alloc (image_Rect 0 0 w h)") simp_all
  have img0: "img0 = \<lparr>Rect = image_Rect 0 0 w h, Pix = (\<lambda>p. 0)\<rparr>"
    by (rule NewAlpha_Image [OF new])
  have r: "Rect img = image_Rect 0 0 w h"
    unfolding img by (simp add: mask_loops img0)
  have p: "Pix img (x, y) =
     (if x \<in> set [0..w - 1] \<and> y \<in> set [0..h - 1] \<and> Point_In (x, y) (image_Rect 0 0 w h)
      then (if vertexInsidePoly x y poly then 255 else 0) else 0)"
    unfolding img by (simp add: mask_loops img0)
  show ?thesis
    unfolding Alpha_At_def r p
    by (auto simp: Point_In_def image_Rect_def)
qed

text \<open>
  \<open>CreateMask\<close> returns an image when neither side is the least \<open>int\<close>, the
  number of pixels fits an \<open>int\<close> and the runtime can make the slice.
\<close>

lemma CreateMask_returns:
  assumes "- (2 ^ 63) < w" and "w < 2 ^ 63" and "- (2 ^ 63) < h" and "h < 2 ^ 63"
    and "\<bar>w\<bar> * \<bar>h\<bar> < 2 ^ 63" and "alloc (nat (\<bar>w\<bar> * \<bar>h\<bar>))"
  shows "\<exists>img. CreateMask alloc w h poly = Image img"
proof -
  have dx: "Dx (image_Rect 0 0 w h) = \<bar>w\<bar>"
    using assms(1,2) by (auto simp: Dx_def image_Rect_def int64_def abs_if min_def max_def)
  have dy: "Dy (image_Rect 0 0 w h) = \<bar>h\<bar>"
    using assms(3,4) by (auto simp: Dy_def image_Rect_def int64_def abs_if min_def max_def)
  show ?thesis
    using assms(5,6) by (simp add: CreateMask_def NewAlpha_def dx dy)
qed

text \<open>A mask of three by two pixels under a triangle.\<close>

lemma CreateMask_example:
  "map (\<lambda>y. map (\<lambda>x. mask_At (CreateMask (\<lambda>n. True) 3 2 [(0, 0), (5, 0), (0, 5)]) x y) [0, 1, 2, 3])
       [0, 1, 2]
     = [[Some 255, Some 255, Some 255, Some 0], [Some 255, Some 255, Some 255, Some 0],
        [Some 0, Some 0, Some 0, Some 0]]"
  by code_simp

text \<open>
  Claim C4 fails on the code. \<open>vertexInsidePoly\<close> divides integers where the ray-cast
  test needs the exact place at which an edge meets the ray, and Go's division drops the
  fraction. The point \<open>(1, 1)\<close> lies strictly inside the triangle with the corners
  \<open>(0, 0)\<close>, \<open>(3, 2)\<close> and \<open>(0, 2)\<close>: the ray from it crosses the edge from
  \<open>(0, 0)\<close> to \<open>(3, 2)\<close> at \<open>x = 3/2\<close> and no other edge, in whatever order the
  corners are listed. In the mask of four by three pixels that \<open>CreateMask\<close> returns for
  the triangle listed from \<open>(3, 2)\<close> the alpha of that pixel is 0, because
  \<open>3 * 1 / 2\<close> is 1 in Go; for the same triangle listed from \<open>(0, 0)\<close> the alpha
  is 255.
\<close>

theorem CreateMask_misses_inner_pixel:
  "ray_cast_inside 1 1 [(3, 2), (0, 0), (0, 2)] = True \<and>
   ray_cast_inside 1 1 [(0, 0), (3, 2), (0, 2)] = True \<and>
   mask_At (CreateMask (\<lambda>n. True) 4 3 [(3, 2), (0, 0), (0, 2)]) 1 1 = Some 0 \<and>
   mask_At (CreateMask (\<lambda>n. True) 4 3 [(0, 0), (3, 2), (0, 2)]) 1 1 = Some 255"
proof -
  have "ray_cast_inside 1 1 [(3, 2), (0, 0), (0, 2)]"
    by (simp add: ray_cast_inside_def edge_crosses_def upt_rec [of 0] upt_rec [of 1]
          upt_rec [of 2] upt_rec [of 3])
  moreover have "ray_cast_inside 1 1 [(0, 0), (3, 2), (0, 2)]"
    by (simp add: ray_cast_inside_def edge_crosses_def upt_rec [of 0] upt_rec [of 1]
          upt_rec [of 2] upt_rec [of 3])
  moreover have "mask_At (CreateMask (\<lambda>n. True) 4 3 [(3, 2), (0, 0), (0, 2)]) 1 1 = Some 0"
    by code_simp
  moreover have "mask_At (CreateMask (\<lambda>n. True) 4 3 [(0, 0), (3, 2), (0, 2)]) 1 1 = Some 255"
    by code_simp
  ultimately show ?thesis by simp
qed
section \<open>ADTS packets\<close>

lemma frame_length_bits:
  fixes L :: int
  assumes "0 \<le> L" "L < 8192"
  shows "uint (push_bit 11 ((ucast (word_of_int (push_bit 6 (cfg AND 0x03) OR (drop_bit 11 L AND 0x03)) :: 8 word) :: 16 word) AND 0x03)
               OR push_bit 3 (ucast (word_of_int (drop_bit 3 L AND 0xFF) :: 8 word) :: 16 word)
               OR (drop_bit 5 (ucast (word_of_int (push_bit 5 (L AND 0x07) OR (drop_bit 6 (0x07FF::int) AND 0x1F)) :: 8 word) :: 16 word) AND 0x07)) = L"
proof -
  have L: "L = take_bit 13 L"
    using assms by (simp add: take_bit_int_eq_self)
  have m3: "(0x03 :: int) = mask 2" "(0x07 :: int) = mask 3" "(0xFF :: int) = mask 8" "(0x1F :: int) = mask 5"
      "(0x03 :: 16 word) = mask 2" "(0x07 :: 16 word) = mask 3"
    by (simp_all add: mask_eq_exp_minus_1)
  have "(push_bit 11 ((ucast (word_of_int (push_bit 6 (cfg AND 0x03) OR (drop_bit 11 L AND 0x03)) :: 8 word) :: 16 word) AND 0x03)
               OR push_bit 3 (ucast (word_of_int (drop_bit 3 L AND 0xFF) :: 8 word) :: 16 word)
               OR (drop_bit 5 (ucast (word_of_int (push_bit 5 (L AND 0x07) OR (drop_bit 6 (0x07FF::int) AND 0x1F)) :: 8 word) :: 16 word) AND 0x07))
        = (word_of_int (take_bit 13 L) :: 16 word)"
    unfolding m3
    apply (rule bit_word_eqI)
    apply (auto simp: bit_simps)
    done
  then show ?thesis
    using assms L by (simp add: uint_word_of_int take_bit_int_eq_self)
qed

lemma type_bits:
  fixes T idx cfg :: int
  assumes "1 \<le> T" "T \<le> 4" "0 \<le> idx" "idx < 16"
  shows "uint (drop_bit 6 (word_of_int (push_bit 6 (T - 1) OR push_bit 2 idx OR (drop_bit 2 cfg AND 0x01)) :: 8 word) + 1) = T"
proof -
  have T: "T - 1 = take_bit 2 (T - 1)" and i: "idx = take_bit 4 idx"
    using assms by (simp_all add: take_bit_int_eq_self)
  have m: "(0x01 :: int) = mask 1"
    by (simp add: mask_eq_exp_minus_1)
  have "drop_bit 6 (word_of_int (push_bit 6 (take_bit 2 (T - 1)) OR push_bit 2 (take_bit 4 idx) OR (drop_bit 2 cfg AND 0x01)) :: 8 word)
          = (word_of_int (take_bit 2 (T - 1)) :: 8 word)"
    unfolding m
    apply (rule bit_word_eqI)
    apply (auto simp: bit_simps)
    done
  with T i have eq: "drop_bit 6 (word_of_int (push_bit 6 (T - 1) OR push_bit 2 idx OR (drop_bit 2 cfg AND 0x01)) :: 8 word)
          = (word_of_int (T - 1) :: 8 word)"
    by simp
  have "uint (drop_bit 6 (word_of_int (push_bit 6 (T - 1) OR push_bit 2 idx OR (drop_bit 2 cfg AND 0x01)) :: 8 word) + 1)
          = uint ((word_of_int (T - 1) :: 8 word) + 1)"
    by (simp only: eq)
  also have "\<dots> = T"
  proof -
    from assms have "T = 1 \<or> T = 2 \<or> T = 3 \<or> T = 4" by arith
    then show ?thesis by auto
  qed
  finally show ?thesis .
qed

lemma sample_rate_bits:
  fixes T idx cfg :: int
  assumes "0 \<le> idx" "idx < 16"
  shows "drop_bit 2 (word_of_int (push_bit 6 (T - 1) OR push_bit 2 idx OR (drop_bit 2 cfg AND 0x01)) :: 8 word) AND 0x0F
           = word_of_int idx"
proof -
  have i: "idx = take_bit 4 idx"
    using assms by (simp add: take_bit_int_eq_self)
  have m: "(0x01 :: int) = mask 1" "(0x0F :: 8 word) = mask 4"
    by (simp_all add: mask_eq_exp_minus_1)
  have "drop_bit 2 (word_of_int (push_bit 6 (T - 1) OR push_bit 2 (take_bit 4 idx) OR (drop_bit 2 cfg AND 0x01)) :: 8 word) AND 0x0F
          = (word_of_int (take_bit 4 idx) :: 8 word)"
    unfolding m
    apply (rule bit_word_eqI)
    apply (auto simp: bit_simps)
    done
  with i show ?thesis by simp
qed

lemma channel_high_bit:
  fixes T idx cfg :: int
  shows "(word_of_int (push_bit 6 (T - 1) OR push_bit 2 idx OR (drop_bit 2 cfg AND 0x01)) :: 8 word) AND 0x01
           = word_of_int (drop_bit 2 cfg AND 0x01)"
proof -
  have m: "(0x01 :: int) = mask 1" "(0x01 :: 8 word) = mask 1"
    by (simp_all add: mask_eq_exp_minus_1)
  show ?thesis
    unfolding m
    apply (rule bit_word_eqI)
    apply (auto simp: bit_simps)
    done
qed

lemma channel_low_bits:
  fixes cfg L :: int
  assumes "0 \<le> L" "L < 8192"
  shows "drop_bit 6 (word_of_int (push_bit 6 (cfg AND 0x03) OR (drop_bit 11 L AND 0x03)) :: 8 word) AND 0x03
           = word_of_int (cfg AND 0x03)"
proof -
  have L: "L = take_bit 13 L"
    using assms by (simp add: take_bit_int_eq_self)
  have m: "(0x03 :: int) = mask 2" "(0x03 :: 8 word) = mask 2"
    by (simp_all add: mask_eq_exp_minus_1)
  have "drop_bit 6 (word_of_int (push_bit 6 (cfg AND 0x03) OR (drop_bit 11 (take_bit 13 L) AND 0x03)) :: 8 word) AND 0x03
           = word_of_int (cfg AND 0x03)"
    unfolding m
    apply (rule bit_word_eqI)
    apply (auto simp: bit_simps)
    done
  with L show ?thesis by simp
qed

lemma channel_bits:
  fixes T idx cfg L :: int
  assumes "1 \<le> cfg" "cfg \<le> 7" "0 \<le> L" "L < 8192"
  shows "push_bit 2 ((word_of_int (push_bit 6 (T - 1) OR push_bit 2 idx OR (drop_bit 2 cfg AND 0x01)) :: 8 word) AND 0x01)
           OR (drop_bit 6 (word_of_int (push_bit 6 (cfg AND 0x03) OR (drop_bit 11 L AND 0x03)) :: 8 word) AND 0x03)
           = word_of_int cfg"
proof -
  from assms have "cfg = 1 \<or> cfg = 2 \<or> cfg = 3 \<or> cfg = 4 \<or> cfg = 5 \<or> cfg = 6 \<or> cfg = 7"
    by arith
  then have "push_bit 2 (word_of_int (drop_bit 2 cfg AND 0x01) :: 8 word) OR word_of_int (cfg AND 0x03)
               = word_of_int cfg"
    by auto
  then show ?thesis
    by (simp only: channel_high_bit channel_low_bits [OF assms(3,4)])
qed

lemma fixed_bits:
  "push_bit 4 (ucast (0xFF :: 8 word) :: 16 word) OR drop_bit 4 (ucast (0xF1 :: 8 word) :: 16 word) = 0xfff"
  "(0xF1 :: 8 word) AND 0x01 = 1"
  "(word_of_int (push_bit 2 ((0x07FF :: int) AND 0x3F)) :: 8 word) AND 0x03 = 0"
  by simp_all

lemma index_of_Some: "index_of xs v = Some i \<Longrightarrow> i < length xs \<and> xs ! i = v"
  by (induction xs arbitrary: i) (auto split: if_splits)

lemma index_of_mem: "v \<in> set xs \<Longrightarrow> \<exists>i. index_of xs v = Some i"
  by (induction xs) auto

lemma small_index_word:
  assumes "idx \<le> 12"
  shows "(word_of_int (int idx) :: 8 word) \<le> 12 \<and> unat (word_of_int (int idx) :: 8 word) = idx"
proof -
  from assms have "idx = 0 \<or> idx = 1 \<or> idx = 2 \<or> idx = 3 \<or> idx = 4 \<or> idx = 5 \<or> idx = 6 \<or>
      idx = 7 \<or> idx = 8 \<or> idx = 9 \<or> idx = 10 \<or> idx = 11 \<or> idx = 12"
    by arith
  then show ?thesis by auto
qed

lemma small_config_word:
  assumes "i < 7"
  shows "(1 :: 8 word) \<le> word_of_int (int i + 1) \<and> (word_of_int (int i + 1) :: 8 word) \<le> 7 \<and>
         unat ((word_of_int (int i + 1) :: 8 word) - 1) = i"
proof -
  from assms have "i = 0 \<or> i = 1 \<or> i = 2 \<or> i = 3 \<or> i = 4 \<or> i = 5 \<or> i = 6"
    by arith
  then show ?thesis by auto
qed

lemma decode_header_encode_header:
  assumes tb: "1 \<le> MPEG4AudioTypeAACLC tb" "MPEG4AudioTypeAACLC tb \<le> 4"
    and idx: "idx < length (sampleRates tb)" "idx \<le> 12"
    and ch: "i < length (channelCounts tb)" "i < 7"
    and len: "length au < 8185" and ne: "au @ rest \<noteq> []"
  shows "decode_header tb
           (encode_header (MPEG4AudioTypeAACLC tb) (int idx) (int i + 1) (int (length au) + 7) @ au @ rest)
         = Inr (\<lparr>Type = MPEG4AudioTypeAACLC tb, SampleRate = sampleRates tb ! idx,
                 ChannelCount = channelCounts tb ! i, AU = []\<rparr>, int (length au))"
proof -
  define T where "T = MPEG4AudioTypeAACLC tb"
  define cfg where "cfg = int i + 1"
  define L where "L = int (length au) + 7"
  define b2 :: byte where
    "b2 = word_of_int (push_bit 6 (T - 1) OR push_bit 2 (int idx) OR (drop_bit 2 cfg AND 0x01))"
  define b3 :: byte where
    "b3 = word_of_int (push_bit 6 (cfg AND 0x03) OR (drop_bit 11 L AND 0x03))"
  define b4 :: byte where
    "b4 = word_of_int (drop_bit 3 L AND 0xFF)"
  define b5 :: byte where
    "b5 = word_of_int (push_bit 5 (L AND 0x07) OR (drop_bit 6 (0x07FF::int) AND 0x1F))"
  define b6 :: byte where
    "b6 = word_of_int (push_bit 2 ((0x07FF :: int) AND 0x3F))"
  have hdr: "encode_header T (int idx) cfg L = [0xFF, 0xF1, b2, b3, b4, b5, b6]"
    unfolding encode_header_def Let_def b2_def b3_def b4_def b5_def b6_def ..
  have rng: "1 \<le> T" "T \<le> 4" "0 \<le> int idx" "int idx < 16" "1 \<le> cfg" "cfg \<le> 7" "0 \<le> L" "L < 8192"
    using tb idx ch len by (simp_all add: T_def cfg_def L_def)
  have f_type: "uint (drop_bit 6 b2 + 1) = T"
    unfolding b2_def by (rule type_bits [OF rng(1-4)])
  have f_sr: "drop_bit 2 b2 AND 0x0F = word_of_int (int idx)"
    unfolding b2_def by (rule sample_rate_bits [OF rng(3,4)])
  have f_ch: "push_bit 2 (b2 AND 0x01) OR (drop_bit 6 b3 AND 0x03) = word_of_int cfg"
    unfolding b2_def b3_def by (rule channel_bits [OF rng(5-8)])
  have f_len: "uint (push_bit 11 ((ucast b3 :: 16 word) AND 0x03) OR push_bit 3 (ucast b4 :: 16 word)
                     OR (drop_bit 5 (ucast b5 :: 16 word) AND 0x07)) = L"
    unfolding b3_def b4_def b5_def by (rule frame_length_bits [OF rng(7,8)])
  have f_cnt: "b6 AND 0x03 = 0"
    unfolding b6_def by (rule fixed_bits(3))
  define byts where "byts = [0xFF, 0xF1, b2, b3, b4, b5, b6] @ au @ rest"
  have nth: "byts ! 0 = 0xFF" "byts ! 1 = 0xF1" "byts ! 2 = b2" "byts ! 3 = b3"
      "byts ! 4 = b4" "byts ! 5 = b5" "byts ! 6 = b6"
    by (simp_all add: byts_def)
  have lb: "\<not> length byts < 8" and dr: "length (drop 7 byts) = length au + length rest"
    using ne by (auto simp: byts_def Suc_le_eq)
  have "decode_header tb byts
         = Inr (\<lparr>Type = T, SampleRate = sampleRates tb ! idx,
                 ChannelCount = channelCounts tb ! i, AU = []\<rparr>, L - 7)"
    unfolding decode_header_def Let_def nth fixed_bits(1,2) f_type f_sr f_ch f_len f_cnt
    using lb dr idx ch small_index_word [OF idx(2)] small_config_word [OF ch(2)]
    by (simp add: T_def cfg_def L_def)
  then show ?thesis
    by (simp add: byts_def hdr [symmetric] T_def cfg_def L_def)
qed


lemma length_encode_header: "length (encode_header T idx cfg L) = 7"
  by (simp add: encode_header_def Let_def)

lemma frame_nonempty: "frame tb pkt \<noteq> []"
proof -
  have "length (frame tb pkt) = 7 + length (AU pkt)"
    by (simp add: frame_def length_encode_header)
  then show ?thesis by auto
qed

lemma EncodeADTS_loop_frames:
  assumes "\<forall>pkt \<in> set pkts. encodable tb pkt"
  shows "EncodeADTS_loop tb pkts ret = Inr (ret @ concat (map (frame tb) pkts))"
  using assms
proof (induction pkts arbitrary: ret)
  case Nil
  then show ?case by simp
next
  case (Cons pkt pkts)
  from Cons.prems have "encodable tb pkt" by simp
  then obtain idx i where
    "index_of (sampleRates tb) (SampleRate pkt) = Some idx"
    "index_of (channelCounts tb) (ChannelCount pkt) = Some i"
    using index_of_mem unfolding encodable_def by meson
  with Cons.IH Cons.prems show ?case
    by (simp add: frame_def)
qed

lemma decode_frame:
  assumes tb: "length (sampleRates tb) \<le> 13" "length (channelCounts tb) \<le> 7"
      "1 \<le> MPEG4AudioTypeAACLC tb" "MPEG4AudioTypeAACLC tb \<le> 4"
    and ok: "encodable tb pkt" and ne: "AU pkt @ rest \<noteq> []"
  shows "DecodeADTS_loop tb (frame tb pkt @ rest) ret = DecodeADTS_loop tb rest (ret @ [pkt])"
proof -
  from ok obtain idx i where
    idx: "index_of (sampleRates tb) (SampleRate pkt) = Some idx" and
    i: "index_of (channelCounts tb) (ChannelCount pkt) = Some i"
    using index_of_mem unfolding encodable_def by meson
  from index_of_Some [OF idx] index_of_Some [OF i] tb(1,2)
  have r: "idx < length (sampleRates tb)" "idx \<le> 12" "sampleRates tb ! idx = SampleRate pkt"
      "i < length (channelCounts tb)" "i < 7" "channelCounts tb ! i = ChannelCount pkt"
    by auto
  from ok have T: "Type pkt = MPEG4AudioTypeAACLC tb" and len: "length (AU pkt) < 8185"
    by (simp_all add: encodable_def)
  define hdr where "hdr = encode_header (MPEG4AudioTypeAACLC tb) (int idx) (int i + 1) (int (length (AU pkt)) + 7)"
  have fr: "frame tb pkt @ rest = hdr @ AU pkt @ rest"
    by (simp add: frame_def idx i T hdr_def)
  have lh: "length hdr = 7"
    by (simp add: hdr_def length_encode_header)
  have dh: "decode_header tb (hdr @ AU pkt @ rest)
         = Inr (\<lparr>Type = MPEG4AudioTypeAACLC tb, SampleRate = sampleRates tb ! idx,
                 ChannelCount = channelCounts tb ! i, AU = []\<rparr>, int (length (AU pkt)))"
    unfolding hdr_def by (rule decode_header_encode_header [OF tb(3,4) r(1,2,4,5) len ne])
  have pk: "\<lparr>Type = MPEG4AudioTypeAACLC tb, SampleRate = sampleRates tb ! idx,
                 ChannelCount = channelCounts tb ! i, AU = AU pkt\<rparr> = pkt"
    using T r(3,6) by (cases pkt) simp
  show ?thesis
    unfolding fr
    by (subst DecodeADTS_loop.simps) (simp add: dh lh pk)
qed

lemma DecodeADTS_loop_frames:
  assumes tb: "length (sampleRates tb) \<le> 13" "length (channelCounts tb) \<le> 7"
      "1 \<le> MPEG4AudioTypeAACLC tb" "MPEG4AudioTypeAACLC tb \<le> 4"
    and "\<forall>pkt \<in> set pkts. encodable tb pkt"
    and "pkts \<noteq> [] \<longrightarrow> AU (last pkts) \<noteq> []"
  shows "DecodeADTS_loop tb (concat (map (frame tb) pkts)) ret = Inr (ret @ pkts)"
  using assms(5,6)
proof (induction pkts arbitrary: ret)
  case Nil
  then show ?case by (simp add: DecodeADTS_loop.simps)
next
  case (Cons pkt pkts)
  from Cons.prems(1) have ok: "encodable tb pkt" by simp
  have ne: "AU pkt @ concat (map (frame tb) pkts) \<noteq> []"
  proof (cases pkts)
    case Nil
    with Cons.prems(2) show ?thesis by simp
  next
    case (Cons p ps)
    then show ?thesis by (simp add: frame_nonempty)
  qed
  from Cons.prems have "\<forall>pkt \<in> set pkts. encodable tb pkt" "pkts \<noteq> [] \<longrightarrow> AU (last pkts) \<noteq> []"
    by auto
  from Cons.IH [OF this] decode_frame [OF tb ok ne] show ?case
    by simp
qed

text \<open>
  Claim C10, as the code has it. The decoder refuses an input of fewer than eight bytes,
  so a stream that ends in a packet with an empty payload (a bare header of seven bytes)
  does not decode. For tables of at most 13 sample rates and 7 channel counts, which the
  decoder's index bounds presuppose, and an AAC-LC type between 1 and 4, which the two
  type bits can hold: when every packet is AAC-LC with a sample rate and a channel count
  from the tables and a payload shorter than 8185 bytes, and the last packet's payload is
  not empty, \<open>EncodeADTS\<close> succeeds and \<open>DecodeADTS\<close> of its output succeeds and
  returns the packets.
\<close>

theorem DecodeADTS_EncodeADTS:
  assumes "length (sampleRates tb) \<le> 13" and "length (channelCounts tb) \<le> 7"
    and "1 \<le> MPEG4AudioTypeAACLC tb" and "MPEG4AudioTypeAACLC tb \<le> 4"
    and "\<forall>pkt \<in> set pkts. encodable tb pkt"
    and "pkts \<noteq> [] \<longrightarrow> AU (last pkts) \<noteq> []"
  shows "\<exists>byts. EncodeADTS tb pkts = Inr byts \<and> DecodeADTS tb byts = Inr pkts"
  using EncodeADTS_loop_frames [OF assms(5), of "[]"] DecodeADTS_loop_frames [OF assms, of "[]"]
  by (simp add: EncodeADTS_def DecodeADTS_def)

text \<open>
  The theorem at the tables of MPEG-4 audio and two packets, the first with an empty
  payload.
\<close>

theorem DecodeADTS_EncodeADTS_witness:
  "EncodeADTS
     \<lparr>sampleRates = [96000, 88200, 64000, 48000, 44100, 32000, 24000, 22050, 16000, 12000, 11025, 8000, 7350],
      channelCounts = [1, 2, 3, 4, 5, 6, 8], MPEG4AudioTypeAACLC = 2\<rparr>
     [\<lparr>Type = 2, SampleRate = 48000, ChannelCount = 2, AU = []\<rparr>,
      \<lparr>Type = 2, SampleRate = 7350, ChannelCount = 8, AU = [9, 8]\<rparr>]
     = Inr [0xFF, 0xF1, 0x4C, 0x80, 0x00, 0xFF, 0xFC, 0xFF, 0xF1, 0x71, 0xC0, 0x01, 0x3F, 0xFC, 9, 8] \<and>
   DecodeADTS
     \<lparr>sampleRates = [96000, 88200, 64000, 48000, 44100, 32000, 24000, 22050, 16000, 12000, 11025, 8000, 7350],
      channelCounts = [1, 2, 3, 4, 5, 6, 8], MPEG4AudioTypeAACLC = 2\<rparr>
     [0xFF, 0xF1, 0x4C, 0x80, 0x00, 0xFF, 0xFC, 0xFF, 0xF1, 0x71, 0xC0, 0x01, 0x3F, 0xFC, 9, 8]
     = Inr [\<lparr>Type = 2, SampleRate = 48000, ChannelCount = 2, AU = []\<rparr>,
            \<lparr>Type = 2, SampleRate = 7350, ChannelCount = 8, AU = [9, 8]\<rparr>]"
proof -
  let ?tb = "\<lparr>sampleRates = [96000, 88200, 64000, 48000, 44100, 32000, 24000, 22050, 16000, 12000, 11025, 8000, 7350],
      channelCounts = [1, 2, 3, 4, 5, 6, 8], MPEG4AudioTypeAACLC = 2\<rparr>"
  let ?pkts = "[\<lparr>Type = 2, SampleRate = 48000, ChannelCount = 2, AU = []\<rparr>,
      \<lparr>Type = 2, SampleRate = 7350, ChannelCount = 8, AU = [9, 8]\<rparr>]"
  have enc: "EncodeADTS ?tb ?pkts
     = Inr [0xFF, 0xF1, 0x4C, 0x80, 0x00, 0xFF, 0xFC, 0xFF, 0xF1, 0x71, 0xC0, 0x01, 0x3F, 0xFC, 9, 8]"
    by (simp add: EncodeADTS_def encode_header_def)
  have "\<forall>pkt \<in> set ?pkts. encodable ?tb pkt"
    by (simp add: encodable_def)
  from DecodeADTS_EncodeADTS [of ?tb ?pkts, OF _ _ _ _ this]
  show ?thesis
    unfolding enc by simp
qed

text \<open>
  Claim C10 as stated fails for a single packet with an empty payload: it is encoded as
  seven bytes, which the decoder rejects as too short.
\<close>

theorem DecodeADTS_EncodeADTS_empty_payload_counterexample:
  "EncodeADTS
     \<lparr>sampleRates = [96000, 88200, 64000, 48000, 44100, 32000, 24000, 22050, 16000, 12000, 11025, 8000, 7350],
      channelCounts = [1, 2, 3, 4, 5, 6, 8], MPEG4AudioTypeAACLC = 2\<rparr>
     [\<lparr>Type = 2, SampleRate = 48000, ChannelCount = 2, AU = []\<rparr>]
     = Inr [0xFF, 0xF1, 0x4C, 0x80, 0x00, 0xFF, 0xFC] \<and>
   DecodeADTS
     \<lparr>sampleRates = [96000, 88200, 64000, 48000, 44100, 32000, 24000, 22050, 16000, 12000, 11025, 8000, 7350],
      channelCounts = [1, 2, 3, 4, 5, 6, 8], MPEG4AudioTypeAACLC = 2\<rparr>
     [0xFF, 0xF1, 0x4C, 0x80, 0x00, 0xFF, 0xFC] = Inl ErrADTSdecodeLengthInvalid"
  by (simp add: EncodeADTS_def encode_header_def DecodeADTS_def DecodeADTS_loop.simps decode_header_def)

text \<open>
  Claim C7 fails on the code. The header below passes every check of the decoder, and its
  13-bit frame length is 0, less than the seven bytes of the header itself; \<open>frameLen\<close>
  is then -7, the comparison with the remaining length lets it through, and the slice
  \<open>byts[7 : 7+frameLen]\<close> panics. The decoder returns neither packets nor an error.
\<close>

theorem DecodeADTS_short_frame_length_panics:
  assumes "MPEG4AudioTypeAACLC tb = 2" and "sampleRates tb \<noteq> []" and "channelCounts tb \<noteq> []"
  shows "DecodeADTS tb [0xFF, 0xF1, 0x40, 0x40, 0x00, 0x1F, 0xFC, 0x00] = Inl PanicSliceBounds"
  using assms
  by (simp add: DecodeADTS_def DecodeADTS_loop.simps decode_header_def)

text \<open>The theorem at the tables of MPEG-4 audio.\<close>

theorem DecodeADTS_short_frame_length_panics_witness:
  "DecodeADTS
     \<lparr>sampleRates = [96000, 88200, 64000, 48000, 44100, 32000, 24000, 22050, 16000, 12000, 11025, 8000, 7350],
      channelCounts = [1, 2, 3, 4, 5, 6, 8], MPEG4AudioTypeAACLC = 2\<rparr>
     [0xFF, 0xF1, 0x40, 0x40, 0x00, 0x1F, 0xFC, 0x00] = Inl PanicSliceBounds"
  using DecodeADTS_short_frame_length_panics
    [of "\<lparr>sampleRates = [96000, 88200, 64000, 48000, 44100, 32000, 24000, 22050, 16000, 12000, 11025, 8000, 7350],
      channelCounts = [1, 2, 3, 4, 5, 6, 8], MPEG4AudioTypeAACLC = 2\<rparr>"]
  by simp


text \<open>
  What holds of claim C7 on the code: a header the decoder accepts has no CRC, one frame
  and the AAC-LC type, and every packet the decoder returns has the AAC-LC type.
\<close>

lemma decode_header_restrictions:
  assumes "decode_header tb byts = Inr (pkt, frameLen)"
  shows "(byts ! 1) AND 0x01 = 1 \<and> (byts ! 6) AND 0x03 = 0 \<and>
         Type pkt = MPEG4AudioTypeAACLC tb \<and> 0 \<le> frameLen"
  using assms by (auto simp: decode_header_def Let_def split: if_splits)

lemma DecodeADTS_loop_types:
  assumes "DecodeADTS_loop tb byts ret = Inr pkts"
    and "\<forall>pkt \<in> set ret. Type pkt = MPEG4AudioTypeAACLC tb"
  shows "\<forall>pkt \<in> set pkts. Type pkt = MPEG4AudioTypeAACLC tb"
  using assms
proof (induction tb byts ret rule: DecodeADTS_loop.induct)
  case (1 tb byts ret)
  show ?case
  proof (cases "length byts = 0")
    case True
    with "1.prems" show ?thesis by (simp add: DecodeADTS_loop.simps)
  next
    case False
    with "1.prems"(1) obtain pkt frameLen where
      dh: "decode_header tb byts = Inr (pkt, frameLen)"
      by (subst (asm) DecodeADTS_loop.simps) (auto split: sum.splits)
    with False "1.prems"(1) have run:
      "DecodeADTS_loop tb (drop (7 + nat frameLen) byts)
         (ret @ [pkt\<lparr>AU := take (nat frameLen) (drop 7 byts)\<rparr>]) = Inr pkts"
      by (subst (asm) DecodeADTS_loop.simps) simp
    from decode_header_restrictions [OF dh] "1.prems"(2)
    have "\<forall>p \<in> set (ret @ [pkt\<lparr>AU := take (nat frameLen) (drop 7 byts)\<rparr>]).
            Type p = MPEG4AudioTypeAACLC tb"
      by simp
    from "1.IH" [OF False dh refl run this] show ?thesis .
  qed
qed

lemma DecodeADTS_types:
  "DecodeADTS tb byts = Inr pkts \<Longrightarrow> \<forall>pkt \<in> set pkts. Type pkt = MPEG4AudioTypeAACLC tb"
  by (rule DecodeADTS_loop_types [of tb byts "[]"]) (simp_all add: DecodeADTS_def)

section \<open>RTSP headers\<close>

lemma readBytesLimited_found:
  assumes "delim \<notin> set content" and "length content \<le> n"
  shows "readBytesLimited (content @ delim # rest) delim n = Inr (content @ [delim], rest)"
proof -
  have "takeWhile (\<lambda>c. c \<noteq> delim) (content @ delim # rest) = content"
    using assms(1) by (induction content) auto
  then show ?thesis
    using assms(2) by (simp add: readBytesLimited_def)
qed

lemma skip_spaces_value:
  assumes "take 1 v \<noteq> '' ''"
  shows "skip_spaces (CHR '' '' # v @ CR # rest) = Inr (v @ CR # rest)"
proof -
  have "dropWhile (\<lambda>c. c = CHR '' '') (v @ CR # rest) = v @ CR # rest"
    using assms by (cases v) (simp_all add: CR_def)
  then show ?thesis
    by (simp add: skip_spaces_def)
qed

lemma read_entry_line:
  assumes "key_ok (byt # ktl)" and "value_ok v"
  shows "read_entry byt (ktl @ CHR '':'' # CHR '' '' # v @ CR # LF # rest) = Inr (byt # ktl, v, rest)"
proof -
  from assms(1) have k: "CHR '':'' \<notin> set ktl" "length ktl \<le> headerMaxKeyLength - 1"
      "headerKeyNormalize (byt # ktl) = byt # ktl"
    by (auto simp: key_ok_def)
  from assms(2) have v: "length v \<le> headerMaxValueLength" "take 1 v \<noteq> '' ''" "CR \<notin> set v"
    by (simp_all add: value_ok_def)
  have s1: "readBytesLimited (ktl @ CHR '':'' # CHR '' '' # v @ CR # LF # rest) (CHR '':'') (headerMaxKeyLength - 1)
              = Inr (ktl @ [CHR '':''], CHR '' '' # v @ CR # LF # rest)"
    by (rule readBytesLimited_found [OF k(1,2)])
  have s2: "skip_spaces (CHR '' '' # v @ CR # LF # rest) = Inr (v @ CR # LF # rest)"
    by (rule skip_spaces_value [OF v(2)])
  have s3: "readBytesLimited (v @ CR # LF # rest) CR headerMaxValueLength = Inr (v @ [CR], LF # rest)"
    by (rule readBytesLimited_found [OF v(3,1)])
  have s4: "readNewLine (LF # rest) = Inr rest"
    by (simp add: readNewLine_def)
  show ?thesis
    unfolding read_entry_def s1 by (simp add: s2 s3 s4 k(3))
qed

lemma read_loop_line:
  assumes "key_ok (fst kv)" and "value_ok (snd kv)" and "count < headerMaxEntryCount"
  shows "read_loop h count (header_line kv @ rest) = read_loop (add_value h kv) (Suc count) rest"
proof -
  from assms(1) obtain byt ktl where k: "fst kv = byt # ktl" and cr: "byt \<noteq> CR"
    by (cases "fst kv") (auto simp: key_ok_def)
  have l: "header_line kv @ rest = byt # (ktl @ '': '' @ snd kv @ [CR, LF] @ rest)"
    by (simp add: header_line_def k)
  have e: "read_entry byt (ktl @ CHR '':'' # CHR '' '' # snd kv @ CR # LF # rest) = Inr (byt # ktl, snd kv, rest)"
    using assms(1,2) by (intro read_entry_line) (simp_all add: k)
  show ?thesis
    unfolding l
    by (subst read_loop.simps) (use cr assms(3) in \<open>simp add: e add_value_def k\<close>)
qed

lemma read_loop_end: "read_loop h count (CR # LF # rest) = Inr (h, rest)"
  by (subst read_loop.simps) (simp add: readNewLine_def)

lemma read_loop_lines:
  assumes "\<forall>kv \<in> set kvs. key_ok (fst kv) \<and> value_ok (snd kv)"
    and "count + length kvs \<le> headerMaxEntryCount"
  shows "read_loop h count (concat (map header_line kvs) @ CR # LF # rest)
           = Inr (foldl add_value h kvs, rest)"
  using assms
proof (induction kvs arbitrary: h count)
  case Nil
  then show ?case by (simp add: read_loop_end)
next
  case (Cons kv kvs)
  from Cons.prems have ok: "key_ok (fst kv)" "value_ok (snd kv)" "count < headerMaxEntryCount"
    by auto
  from Cons.prems have "\<forall>kv \<in> set kvs. key_ok (fst kv) \<and> value_ok (snd kv)"
      "Suc count + length kvs \<le> headerMaxEntryCount"
    by auto
  from Cons.IH [OF this] read_loop_line [OF ok] show ?case
    by simp
qed


lemma entries_Cons: "entries h (k # ks) = map (Pair k) (values_of h k) @ entries h ks"
  by (simp add: entries_def)

lemma lines_of_entries:
  "concat (map (\<lambda>key. concat (map (\<lambda>val. key @ '': '' @ val @ [CR, LF]) (values_of h key))) keys)
     = concat (map header_line (entries h keys))"
  by (induction keys) (simp_all add: entries_def header_line_def comp_def)

lemma Header_write_entries:
  "Header_write h =
     concat (map header_line
       (entries h (sort (replicate (card (dom h)) [] @ sorted_list_of_set (dom h))))) @ [CR, LF]"
  unfolding Header_write_def Let_def lines_of_entries ..

lemma values_of_upd:
  "values_of (h(k \<mapsto> vs)) k' = (if k' = k then vs else values_of h k')"
  by (simp add: values_of_def)

lemma add_value_pair: "add_value h (k, v) = h(k \<mapsto> values_of h k @ [v])"
  by (simp add: add_value_def)

lemma foldl_add_values:
  "foldl add_value h0 (map (Pair k) vs) = (if vs = [] then h0 else h0(k \<mapsto> values_of h0 k @ vs))"
proof (induction vs arbitrary: h0)
  case Nil
  then show ?case by simp
next
  case (Cons v vs)
  show ?case
    by (auto simp: Cons.IH add_value_pair values_of_def fun_upd_def)
qed

lemma foldl_entries:
  assumes "distinct (filter (\<lambda>k. h k \<noteq> None) ks)" and "\<forall>k. h k \<noteq> Some []"
  shows "foldl add_value h0 (entries h ks)
           = (\<lambda>k. if k \<in> set ks \<and> h k \<noteq> None then Some (values_of h0 k @ values_of h k) else h0 k)"
  using assms(1)
proof (induction ks arbitrary: h0)
  case Nil
  then show ?case by (simp add: entries_def)
next
  case (Cons k ks)
  show ?case
  proof (cases "h k")
    case None
    with Cons.prems have "distinct (filter (\<lambda>k. h k \<noteq> None) ks)" by simp
    from Cons.IH [OF this, of h0] None show ?thesis
      by (auto simp: entries_Cons values_of_def fun_eq_iff)
  next
    case (Some vs)
    with assms(2) have ne: "vs \<noteq> []" by auto
    from Some Cons.prems have d: "distinct (filter (\<lambda>k. h k \<noteq> None) ks)" and nk: "k \<notin> set ks"
      by auto
    have v: "values_of h k = vs" using Some by (simp add: values_of_def)
    show ?thesis
      unfolding entries_Cons foldl_append foldl_add_values v
      using ne nk Some by (auto simp: Cons.IH [OF d] values_of_upd v fun_eq_iff)
  qed
qed

lemma length_entries: "length (entries h ks) = sum_list (map (\<lambda>k. length (values_of h k)) ks)"
  by (induction ks) (simp_all add: entries_def)

lemma set_entries:
  assumes "kv \<in> set (entries h ks)"
  shows "fst kv \<in> dom h \<and> snd kv \<in> set (the (h (fst kv)))"
proof -
  from assms have v: "snd kv \<in> set (values_of h (fst kv))"
    by (auto simp: entries_def)
  then show ?thesis
    by (cases "h (fst kv)") (simp_all add: values_of_def dom_def)
qed

lemma written_keys:
  assumes "finite (dom h)" and "h [] = None"
  shows "filter (\<lambda>k. h k \<noteq> None) (sort (replicate (card (dom h)) [] @ sorted_list_of_set (dom h)))
           = sorted_list_of_set (dom h)"
proof -
  have "filter (\<lambda>k. h k \<noteq> None) (sorted_list_of_set (dom h)) = sorted_list_of_set (dom h)"
    using assms(1) by (auto simp: filter_id_conv)
  moreover have "filter (\<lambda>k. h k \<noteq> None) (replicate (card (dom h)) []) = []"
    using assms(2) by simp
  ultimately have "filter (\<lambda>k. h k \<noteq> None) (sort (replicate (card (dom h)) [] @ sorted_list_of_set (dom h)))
     = sort (sorted_list_of_set (dom h))"
    by (simp add: filter_sort)
  then show ?thesis
    by (simp add: sorted_sort_id)
qed


text \<open>
  Claim C2, as the code has it. \<open>Header.read\<close> counts lines, not keys; it takes the
  first byte of a line as part of the key unless it is CR, which ends the header, and ends
  the key at the first colon after that byte; the format has no escape for either. So the
  round trip holds for a finite header with at most 255 values in all, whose keys are
  not empty, do not start with CR, have no colon after the first byte, have at most 512
  bytes and are in normalized form, and whose value lists are not empty and hold values
  of at most 2048 bytes with no leading space and no CR or LF: \<open>Header.read\<close> of what
  \<open>Header.write\<close> wrote returns the header, and leaves no input.
\<close>

theorem Header_read_write:
  assumes "finite (dom h)"
    and "(\<Sum>k \<in> dom h. length (the (h k))) \<le> headerMaxEntryCount"
    and "\<forall>k \<in> dom h. key_ok k"
    and "\<forall>k \<in> dom h. the (h k) \<noteq> [] \<and> (\<forall>v \<in> set (the (h k)). value_ok v)"
  shows "Header_read (Header_write h) = Inr (h, [])"
proof -
  define ks where "ks = sort (replicate (card (dom h)) [] @ sorted_list_of_set (dom h))"
  have no_empty: "h [] = None"
    using assms(3) by (auto simp: key_ok_def dom_def)
  have nonnil: "\<forall>k. h k \<noteq> Some []"
    using assms(4) by (auto simp: dom_def)
  have fk: "filter (\<lambda>k. h k \<noteq> None) ks = sorted_list_of_set (dom h)"
    unfolding ks_def by (rule written_keys [OF assms(1) no_empty])
  have dist: "distinct (filter (\<lambda>k. h k \<noteq> None) ks)"
    unfolding fk by simp
  have sub: "dom h \<subseteq> set ks"
    using assms(1) by (auto simp: ks_def)
  have ok: "\<forall>kv \<in> set (entries h ks). key_ok (fst kv) \<and> value_ok (snd kv)"
    using set_entries [of _ h ks] assms(3,4) by blast
  have "length (entries h ks) = sum_list (map (\<lambda>k. length (values_of h k)) (filter (\<lambda>k. h k \<noteq> None) ks))"
    unfolding length_entries
    by (rule sum_list_map_filter [symmetric]) (simp add: values_of_def)
  also have "\<dots> = (\<Sum>k \<in> dom h. length (values_of h k))"
    unfolding fk using assms(1) by (simp add: sum_list_distinct_conv_sum_set)
  also have "\<dots> = (\<Sum>k \<in> dom h. length (the (h k)))"
    by (rule sum.cong) (auto simp: values_of_def)
  finally have cnt: "0 + length (entries h ks) \<le> headerMaxEntryCount"
    using assms(2) by simp
  have "Header_read (Header_write h)
          = read_loop Map.empty 0 (concat (map header_line (entries h ks)) @ CR # LF # [])"
    by (simp add: Header_read_def Header_write_entries ks_def)
  also have "\<dots> = Inr (foldl add_value Map.empty (entries h ks), [])"
    by (rule read_loop_lines [OF ok cnt])
  also have "foldl add_value Map.empty (entries h ks) = h"
    unfolding foldl_entries [OF dist nonnil]
  proof (rule ext)
    fix k
    show "(if k \<in> set ks \<and> h k \<noteq> None
           then Some (values_of Map.empty k @ values_of h k) else Map.empty k) = h k"
    proof (cases "h k")
      case None
      then show ?thesis by simp
    next
      case (Some vs)
      then have "k \<in> dom h" by auto
      with sub have "k \<in> set ks" by blast
      with Some show ?thesis by (simp add: values_of_def)
    qed
  qed
  finally show ?thesis .
qed

lemma normalize_examples:
  "headerKeyNormalize ''CSeq'' = ''CSeq''"
  "headerKeyNormalize ''Session'' = ''Session''"
  "headerKeyNormalize ''A:b'' = ''A:b''"
  by (simp_all add: headerKeyNormalize_def CanonicalHeaderKey_def validHeaderFieldByte_def
        to_lower_def to_upper_def Let_def)


text \<open>The theorem at a header of two keys and three values, one of them empty.\<close>

theorem Header_read_write_witness:
  "Header_read (Header_write [''CSeq'' \<mapsto> [''1''], ''Session'' \<mapsto> [''abc'', []]])
     = Inr ([''CSeq'' \<mapsto> [''1''], ''Session'' \<mapsto> [''abc'', []]], [])"
proof -
  let ?h = "[''CSeq'' \<mapsto> [''1''], ''Session'' \<mapsto> [''abc'', []]]"
  have d: "dom ?h = {''CSeq'', ''Session''}"
    by auto
  have h1: "finite (dom ?h)"
    by simp
  have h2: "(\<Sum>k \<in> dom ?h. length (the (?h k))) \<le> headerMaxEntryCount"
    unfolding d by (simp add: headerMaxEntryCount_def)
  have h3: "\<forall>k \<in> dom ?h. key_ok k"
    unfolding d by (simp add: key_ok_def normalize_examples CR_def headerMaxKeyLength_def)
  have h4: "\<forall>k \<in> dom ?h. the (?h k) \<noteq> [] \<and> (\<forall>v \<in> set (the (?h k)). value_ok v)"
    unfolding d by (simp add: value_ok_def CR_def LF_def headerMaxValueLength_def)
  show ?thesis
    by (rule Header_read_write [OF h1 h2 h3 h4])
qed

lemma Header_write_colon_key:
  "Header_write [''A:b'' \<mapsto> [''v'']] = ''A:b: v'' @ [CR, LF, CR, LF]"
proof -
  have d: "dom [''A:b'' \<mapsto> [''v'']] = {''A:b''}"
    by auto
  show ?thesis
    unfolding Header_write_def d by (simp add: values_of_def)
qed

text \<open>
  Claim C2 as stated fails for a key with a colon: \<open>A:b\<close> is in normalized form (a key
  with a byte that is no token character is left alone), and the header with the one
  value \<open>v\<close> under it is read back as the value \<open>b: v\<close> under the key \<open>A\<close>.
\<close>

theorem Header_read_write_colon_key_counterexample:
  "headerKeyNormalize ''A:b'' = ''A:b'' \<and>
   Header_read (Header_write [''A:b'' \<mapsto> [''v'']]) = Inr ([''A'' \<mapsto> [''b: v'']], [])"
proof -
  have k: "headerKeyNormalize ''A'' = ''A''"
    by (simp add: headerKeyNormalize_def CanonicalHeaderKey_def validHeaderFieldByte_def
          to_lower_def to_upper_def Let_def)
  have e: "read_entry (CHR ''A'') ('':b: v'' @ [CR, LF, CR, LF]) = Inr (''A'', ''b: v'', [CR, LF])"
    by (simp add: read_entry_def readBytesLimited_def skip_spaces_def readNewLine_def k
          headerMaxKeyLength_def headerMaxValueLength_def CR_def LF_def)
  have "read_loop Map.empty 0 (''A:b: v'' @ [CR, LF, CR, LF])
          = read_loop [''A'' \<mapsto> [''b: v'']] 1 [CR, LF]"
    by (subst read_loop.simps) (use e in \<open>simp add: values_of_def headerMaxEntryCount_def CR_def\<close>)
  also have "\<dots> = Inr ([''A'' \<mapsto> [''b: v'']], [])"
    by (rule read_loop_end)
  finally show ?thesis
    by (simp add: Header_read_def Header_write_colon_key normalize_examples)
qed


end
